theory Spec2Isabelle
  imports Complex_Main "HOL-Library.AList"
begin

section \<open>Badminton elimination: the data model\<close>

text \<open>
  The development follows \<^verbatim>\<open>src/badminton_elimination.py\<close>. Python integers are
  \<open>int\<close>. Exceptions are values: a Python exception raised by the repository's own code is
  an \<open>error\<close>, and one raised inside the external libraries (networkx, picos/cvxopt) is a
  \<open>lib_error\<close> wrapped in \<open>LibError\<close>.
\<close>

datatype lib_error = NetworkXError | NetworkXUnbounded | SolverError

datatype error = KeyError int | ValueError | LibError lib_error

text \<open>
  \<^verbatim>\<open>class Team\<close>. \<open>readDivision\<close> builds every team with
  \<^verbatim>\<open>list(map(int, teaminfo[4:]))\<close> as \<open>against\<close>, so the opponent table is a
  Python list indexed by the opponent's ID.
\<close>

record team =
  ID :: int
  name :: string
  wins :: int
  losses :: int
  remaining :: int
  against :: "int list"

text \<open>
  \<^verbatim>\<open>Team.get_against(self, other_team=None)\<close>: \<^verbatim>\<open>self.against[other_team]\<close> inside a
  bare \<^verbatim>\<open>try/except\<close> that turns every failure into \<^verbatim>\<open>ValueError\<close>. Indexing a list
  by \<^verbatim>\<open>None\<close> fails (TypeError), an index outside \<open>-len \<le> i < len\<close> fails (IndexError), a
  negative index inside that range counts from the end.
\<close>

definition get_against :: "team \<Rightarrow> int option \<Rightarrow> error + int" where
  "get_against t other_team =
     (case other_team of
        None \<Rightarrow> Inl ValueError
      | Some i \<Rightarrow>
          (let n = int (length (against t)); j = (if i < 0 then n + i else i)
           in if 0 \<le> j \<and> j < n then Inr (against t ! nat j) else Inl ValueError))"

section \<open>The division and its flow network\<close>

text \<open>
  The nodes of \<^verbatim>\<open>self.G\<close> are Python values of three kinds: the strings \<^verbatim>\<open>'S'\<close> and
  \<^verbatim>\<open>'T'\<close>, team IDs, and the tuples that \<^verbatim>\<open>itertools.combinations\<close> yields.
  A \<^verbatim>\<open>networkx.DiGraph\<close> built with \<^verbatim>\<open>add_edge\<close> only is the list of its edges in
  insertion order, each with its optional \<^verbatim>\<open>capacity\<close> attribute.
\<close>

datatype node = NStr string | NInt int | NTup "int \<times> int"

type_synonym edge = "node \<times> node \<times> int option"

type_synonym graph = "edge list"

text \<open>
  \<^verbatim>\<open>G.add_edge(u, v)\<close> and \<^verbatim>\<open>G.add_edge(u, v, capacity=c)\<close>: a new edge is appended;
  on an existing edge the given attribute is written and a missing one leaves the edge as
  it is.
\<close>

fun add_edge :: "node \<Rightarrow> node \<Rightarrow> int option \<Rightarrow> graph \<Rightarrow> graph" where
  "add_edge u v c [] = [(u, v, c)]"
| "add_edge u v c ((u', v', c') # es) =
     (if u' = u \<and> v' = v
      then (u', v', (case c of None \<Rightarrow> c' | Some k \<Rightarrow> Some k)) # es
      else (u', v', c') # add_edge u v c es)"

text \<open>
  \<^verbatim>\<open>class Division\<close>: the dictionary \<^verbatim>\<open>self.teams\<close> in insertion order, and the
  graph \<^verbatim>\<open>self.G\<close> that \<^verbatim>\<open>create_network\<close> overwrites. A method takes the division
  and returns it updated next to its result, also when it raises.
\<close>

record division =
  teams :: "(int \<times> team) list"
  G :: graph

type_synonym saturated = "((int \<times> int) \<times> int) list"

text \<open>\<^verbatim>\<open>Division.get_team_IDs\<close>: the keys of \<^verbatim>\<open>self.teams\<close>.\<close>

definition get_team_IDs :: "division \<Rightarrow> int list" where
  "get_team_IDs d = map fst (teams d)"

text \<open>\<^verbatim>\<open>Division.checkTeam\<close>.\<close>

definition checkTeam :: "division \<Rightarrow> team \<Rightarrow> error + unit" where
  "checkTeam d t = (if ID t \<notin> set (get_team_IDs d) then Inl ValueError else Inr ())"

text \<open>\<^verbatim>\<open>Division.max_allowed\<close>; each \<^verbatim>\<open>self.teams[t]\<close> raises KeyError on a missing key.\<close>

definition max_allowed :: "division \<Rightarrow> int \<Rightarrow> int \<Rightarrow> error + int" where
  "max_allowed d t1 t2 =
     (case map_of (teams d) t1 of
        None \<Rightarrow> Inl (KeyError t1)
      | Some team1 \<Rightarrow>
          (case map_of (teams d) t2 of
             None \<Rightarrow> Inl (KeyError t2)
           | Some team2 \<Rightarrow> Inr (wins team1 + remaining team1 - wins team2 - 1)))"

text \<open>\<^verbatim>\<open>itertools.combinations(xs, 2)\<close>: the pairs in the order Python yields them.\<close>

fun combinations2 :: "'a list \<Rightarrow> ('a \<times> 'a) list" where
  "combinations2 [] = []"
| "combinations2 (x # xs) = map (Pair x) xs @ combinations2 xs"

text \<open>
  The three loops of \<^verbatim>\<open>create_network\<close>. The first stops where \<^verbatim>\<open>get_against\<close>
  raises, with the edges added so far left in the graph.
\<close>

fun first_layer ::
  "(int \<times> team) list \<Rightarrow> (int \<times> int) list \<Rightarrow> saturated \<Rightarrow> graph
     \<Rightarrow> error option \<times> saturated \<times> graph" where
  "first_layer ts [] se g = (None, se, g)"
| "first_layer ts (pair # ps) se g =
     (case map_of ts (fst pair) of
        None \<Rightarrow> (Some (KeyError (fst pair)), se, g)
      | Some t \<Rightarrow>
          (case get_against t (Some (snd pair)) of
             Inl e \<Rightarrow> (Some e, se, g)
           | Inr num \<Rightarrow>
               first_layer ts ps (AList.update pair num se)
                 (add_edge (NStr ''S'') (NTup pair) (Some num) g)))"

definition second_layer :: "saturated \<Rightarrow> graph \<Rightarrow> graph" where
  "second_layer se g =
     fold (\<lambda>(pair, num) g'.
             add_edge (NTup pair) (NInt (snd pair)) None
               (add_edge (NTup pair) (NInt (fst pair)) None g')) se g"

fun third_layer :: "division \<Rightarrow> int \<Rightarrow> int list \<Rightarrow> graph \<Rightarrow> error option \<times> graph" where
  "third_layer d teamID [] g = (None, g)"
| "third_layer d teamID (t # ts) g =
     (case max_allowed d teamID t of
        Inl e \<Rightarrow> (Some e, g)
      | Inr c \<Rightarrow> third_layer d teamID ts (add_edge (NInt t) (NStr ''T'') (Some c) g))"

text \<open>
  \<^verbatim>\<open>Division.create_network(teamID)\<close>, with \<^verbatim>\<open>show\<close> left at its default
  (drawing the graph is not modelled). \<^verbatim>\<open>remaining_teams.pop(teamID)\<close> raises KeyError on
  a missing key, after the graph has been reset.
\<close>

definition create_network :: "division \<Rightarrow> int \<Rightarrow> (error + saturated) \<times> division" where
  "create_network d teamID =
     (case map_of (teams d) teamID of
        None \<Rightarrow> (Inl (KeyError teamID), d\<lparr>G := []\<rparr>)
      | Some _ \<Rightarrow>
          (let remaining_teams = AList.delete teamID (teams d) in
           case first_layer (teams d) (combinations2 (map fst remaining_teams)) [] [] of
             (Some e, se, g1) \<Rightarrow> (Inl e, d\<lparr>G := g1\<rparr>)
           | (None, saturated_edges, g1) \<Rightarrow>
               (case third_layer d teamID (map fst remaining_teams)
                       (second_layer saturated_edges g1) of
                  (Some e, g3) \<Rightarrow> (Inl e, d\<lparr>G := g3\<rparr>)
                | (None, g3) \<Rightarrow> (Inr saturated_edges, d\<lparr>G := g3\<rparr>))))"

section \<open>The two solvers\<close>

text \<open>
  \<^verbatim>\<open>Division.network_flows\<close>. The call \<^verbatim>\<open>nx.algorithms.flow.maximum_flow(self.G, 'S', 'T')\<close>
  goes to the networkx library: \<open>mf\<close> stands for it. The two \<^verbatim>\<open>print\<close> calls are not
  modelled.
\<close>

definition network_flows ::
  "(graph \<Rightarrow> node \<Rightarrow> node \<Rightarrow> lib_error + int) \<Rightarrow> division \<Rightarrow> saturated \<Rightarrow> error + bool" where
  "network_flows mf d saturated_edges =
     (case mf (G d) (NStr ''S'') (NStr ''T'') of
        Inl e \<Rightarrow> Inl (LibError e)
      | Inr max_flow \<Rightarrow>
          (let games_remaining = sum_list (map snd saturated_edges)
           in Inr (if max_flow = games_remaining then False else True)))"

text \<open>
  The first loop of \<^verbatim>\<open>Division.linear_programming\<close> collects the capacities and returns
  from the method at the first negative one: \<open>None\<close> here.
\<close>

fun edge_capacities :: "graph \<Rightarrow> ((node \<times> node) \<times> int) list option" where
  "edge_capacities [] = Some []"
| "edge_capacities ((u, v, None) # es) = edge_capacities es"
| "edge_capacities ((u, v, Some k) # es) =
     (if k < 0 then None
      else (case edge_capacities es of None \<Rightarrow> None | Some c \<Rightarrow> Some (((u, v), k) # c)))"

text \<open>
  \<^verbatim>\<open>Division.linear_programming\<close>. Building the picos problem and solving it with cvxopt
  is the library's work: \<open>lp\<close> stands for it and yields \<^verbatim>\<open>float(F)\<close>, read as a real
  number, or the exception the library raised.
\<close>

definition linear_programming ::
  "(graph \<Rightarrow> lib_error + real) \<Rightarrow> division \<Rightarrow> saturated \<Rightarrow> error + bool" where
  "linear_programming lp d saturated_edges =
     (case edge_capacities (G d) of
        None \<Rightarrow> Inr True
      | Some c \<Rightarrow>
          (case lp (G d) of
             Inl e \<Rightarrow> Inl (LibError e)
           | Inr flow \<Rightarrow>
               (let games_remaining = sum_list (map snd saturated_edges)
                in Inr (\<not> (\<bar>flow - real_of_int games_remaining\<bar> < 1 / 10)))))"

section \<open>The elimination decider\<close>

text \<open>
  \<^verbatim>\<open>Division.is_eliminated(teamID, solver)\<close>. \<^verbatim>\<open>self.teams[teamID]\<close> raises KeyError on
  a missing key; the loop over the other teams sets \<open>flag1\<close>; \<^verbatim>\<open>create_network\<close> is called
  whatever \<open>flag1\<close> is; a solver runs only when \<open>flag1\<close> is still false and the string is
  one of the two names.
\<close>

definition is_eliminated ::
  "(graph \<Rightarrow> node \<Rightarrow> node \<Rightarrow> lib_error + int) \<Rightarrow> (graph \<Rightarrow> lib_error + real)
     \<Rightarrow> division \<Rightarrow> int \<Rightarrow> string \<Rightarrow> (error + bool) \<times> division" where
  "is_eliminated mf lp d teamID solver =
     (case map_of (teams d) teamID of
        None \<Rightarrow> (Inl (KeyError teamID), d)
      | Some team \<Rightarrow>
          (let temp = AList.delete teamID (teams d);
               flag1 = fold (\<lambda>(_, other_team) flag.
                               if wins team + remaining team < wins other_team then True
                               else flag) temp False
           in case create_network d teamID of
                (Inl e, d') \<Rightarrow> (Inl e, d')
              | (Inr saturated_edges, d') \<Rightarrow>
                  (if \<not> flag1 then
                     (if solver = ''Network Flows''
                      then (network_flows mf d' saturated_edges, d')
                      else if solver = ''Linear Programming''
                      then (linear_programming lp d' saturated_edges, d')
                      else (Inr flag1, d'))
                   else (Inr flag1, d'))))"

section \<open>The max-flow call of the library\<close>

text \<open>
  Modelled from the spec: the maximum-flow computation of section 4.4, which the code
  leaves to networkx; the library is not part of the repository. \<open>nx_maximum_flow\<close> is what
  \<^verbatim>\<open>maximum_flow(G, s, t)\<close> returns for integer capacities, by its documented contract:
  \<^item> NetworkXError when \<open>s\<close> or \<open>t\<close> is not a node of the graph, or \<open>s = t\<close>;
  \<^item> the residual network keeps the edges of positive capacity that are no self-loops, an
    edge without the attribute having infinite capacity;
  \<^item> NetworkXUnbounded when a path of infinite-capacity edges leads from \<open>s\<close> to \<open>t\<close>;
  \<^item> otherwise the largest value of a flow: one integer per edge between zero and the
    capacity, conserved at every node but \<open>s\<close> and \<open>t\<close>. An edge of infinite capacity never
    needs more than the sum of the finite capacities.
  The value is found by enumeration, so the definition computes on small graphs.
\<close>

definition graph_nodes :: "graph \<Rightarrow> node list" where
  "graph_nodes g = concat (map (\<lambda>(u, v, c). [u, v]) g)"

definition residual_edges :: "graph \<Rightarrow> graph" where
  "residual_edges g =
     filter (\<lambda>(u, v, c). u \<noteq> v \<and> (case c of None \<Rightarrow> True | Some k \<Rightarrow> 0 < k)) g"

definition finite_total :: "graph \<Rightarrow> int" where
  "finite_total g = sum_list (map (\<lambda>(u, v, c). case c of None \<Rightarrow> 0 | Some k \<Rightarrow> k) g)"

definition edge_bound :: "int \<Rightarrow> edge \<Rightarrow> int" where
  "edge_bound b e = (case e of (u, v, c) \<Rightarrow> (case c of None \<Rightarrow> b | Some k \<Rightarrow> k))"

fun flows_upto :: "int list \<Rightarrow> int list list" where
  "flows_upto [] = [[]]"
| "flows_upto (b # bs) = concat (map (\<lambda>x. map ((#) x) (flows_upto bs)) [0..b])"

definition outflow :: "graph \<Rightarrow> int list \<Rightarrow> node \<Rightarrow> int" where
  "outflow g fl n = sum_list (map (\<lambda>((u, v, c), x). if u = n then x else 0) (zip g fl))"

definition inflow :: "graph \<Rightarrow> int list \<Rightarrow> node \<Rightarrow> int" where
  "inflow g fl n = sum_list (map (\<lambda>((u, v, c), x). if v = n then x else 0) (zip g fl))"

definition conserved :: "graph \<Rightarrow> int list \<Rightarrow> node \<Rightarrow> node \<Rightarrow> bool" where
  "conserved g fl s t =
     list_all (\<lambda>n. n = s \<or> n = t \<or> inflow g fl n = outflow g fl n) (graph_nodes g)"

definition flow_amount :: "graph \<Rightarrow> int list \<Rightarrow> node \<Rightarrow> int" where
  "flow_amount g fl s = outflow g fl s - inflow g fl s"

definition inf_step :: "graph \<Rightarrow> node list \<Rightarrow> node list" where
  "inf_step g ns = ns @ map (\<lambda>(u, v, c). v) (filter (\<lambda>(u, v, c). c = None \<and> u \<in> set ns) g)"

definition unbounded :: "graph \<Rightarrow> node \<Rightarrow> node \<Rightarrow> bool" where
  "unbounded g s t = (t \<in> set ((inf_step g ^^ length g) [s]))"

definition nx_maximum_flow :: "graph \<Rightarrow> node \<Rightarrow> node \<Rightarrow> lib_error + int" where
  "nx_maximum_flow g s t =
     (if s \<notin> set (graph_nodes g) then Inl NetworkXError
      else if t \<notin> set (graph_nodes g) then Inl NetworkXError
      else if s = t then Inl NetworkXError
      else (let r = residual_edges g in
            if unbounded r s t then Inl NetworkXUnbounded
            else Inr (fold max
                        (map (\<lambda>fl. flow_amount r fl s)
                           (filter (\<lambda>fl. conserved r fl s t)
                              (flows_upto (map (edge_bound (finite_total r)) r))))
                        0)))"

text \<open>
  A feasible integer flow on a graph, one number per edge in the order of the edge list:
  never negative, never above a capacity, conserved at every node but \<open>s\<close> and \<open>t\<close>.
  On the networks the builder returns, \<open>nx_maximum_flow\<close> is the largest amount of such
  a flow (lemma \<open>nx_maximum_flow_is_maximum\<close> below).
\<close>

definition feasible_flow :: "graph \<Rightarrow> int list \<Rightarrow> node \<Rightarrow> node \<Rightarrow> bool" where
  "feasible_flow g fl s t =
     (list_all2 (\<lambda>x e. 0 \<le> x \<and> (case snd (snd e) of None \<Rightarrow> True | Some k \<Rightarrow> x \<le> k)) fl g
      \<and> conserved g fl s t)"

text \<open>
  Modelled from the spec: the linear program of section 4.5, which the code leaves to picos
  and cvxopt, solved exactly: its optimum is the maximum flow. It stands for the solver in
  the statements about concrete divisions; no theorem below depends on what it returns.
\<close>

definition lp_exact :: "graph \<Rightarrow> lib_error + real" where
  "lp_exact g =
     (case nx_maximum_flow g (NStr ''S'') (NStr ''T'') of
        Inl e \<Rightarrow> Inl e
      | Inr v \<Rightarrow> Inr (real_of_int v))"

section \<open>The network as the specification describes it\<close>

text \<open>
  The specification's network for a candidate \<open>c\<close>, written down layer by layer and
  without the builder's functions: the other teams in registry order, one entry per pair
  of them with the games left between the two, and the sink capacity
  \<open>wins[c] + remaining[c] - wins[i] - 1\<close>. \<open>create_network\<close> is compared with it below.
\<close>

definition other_teams :: "division \<Rightarrow> int \<Rightarrow> int list" where
  "other_teams d teamID = filter (\<lambda>i. i \<noteq> teamID) (get_team_IDs d)"

definition games_between :: "division \<Rightarrow> int \<Rightarrow> int \<Rightarrow> int" where
  "games_between d i j =
     (case map_of (teams d) i of
        None \<Rightarrow> 0
      | Some t \<Rightarrow> (case get_against t (Some j) of Inl e \<Rightarrow> 0 | Inr n \<Rightarrow> n))"

definition sink_capacity :: "division \<Rightarrow> int \<Rightarrow> int \<Rightarrow> int" where
  "sink_capacity d c i =
     (case (map_of (teams d) c, map_of (teams d) i) of
        (Some tc, Some ti) \<Rightarrow> wins tc + remaining tc - wins ti - 1
      | _ \<Rightarrow> 0)"

definition spec_saturated :: "division \<Rightarrow> int \<Rightarrow> saturated" where
  "spec_saturated d c =
     map (\<lambda>(i, j). ((i, j), games_between d i j)) (combinations2 (other_teams d c))"

definition spec_network :: "division \<Rightarrow> int \<Rightarrow> graph" where
  "spec_network d c =
     map (\<lambda>(p, n). (NStr ''S'', NTup p, Some n)) (spec_saturated d c)
     @ concat (map (\<lambda>(p, n). [(NTup p, NInt (fst p), None), (NTup p, NInt (snd p), None)])
                 (spec_saturated d c))
     @ map (\<lambda>i. (NInt i, NStr ''T'', Some (sink_capacity d c i))) (other_teams d c)"

definition edge_keys :: "graph \<Rightarrow> (node \<times> node) set" where
  "edge_keys g = set (map (\<lambda>e. (fst e, fst (snd e))) g)"

section \<open>Conditions on the input\<close>

text \<open>
  The opponent table of a team has an entry for the opponent ID \<open>i\<close>: team IDs are the row
  numbers 0, 1, ... of the input, and the list holds one count per ID, in that order.
\<close>

definition opponent_listed :: "team \<Rightarrow> int \<Rightarrow> bool" where
  "opponent_listed t i = (0 \<le> i \<and> i < int (length (against t)))"

text \<open>
  The arguments that Python accepts as an index of the opponent list: the listed IDs, and
  also the negative numbers from \<open>-len\<close> to \<open>-1\<close>.
\<close>

definition index_accepted :: "team \<Rightarrow> int option \<Rightarrow> bool" where
  "index_accepted t other_team =
     (case other_team of
        None \<Rightarrow> False
      | Some i \<Rightarrow> - int (length (against t)) \<le> i \<and> i < int (length (against t)))"

text \<open>
  Every team's opponent list can be read at every team ID of the division, as the rows of
  the input table can.
\<close>

definition against_complete :: "division \<Rightarrow> bool" where
  "against_complete d =
     list_all (\<lambda>(i, t). list_all (\<lambda>(j, t'). index_accepted t (Some j)) (teams d)) (teams d)"

text \<open>No remaining-game count is negative.\<close>

definition against_nonneg :: "division \<Rightarrow> bool" where
  "against_nonneg d = list_all (\<lambda>(i, t). list_all (\<lambda>x. 0 \<le> x) (against t)) (teams d)"

text \<open>
  The condition of the loop at the head of \<open>is_eliminated\<close>: some other team has more
  wins already than the candidate can still reach.
\<close>

definition trivially_behind :: "division \<Rightarrow> int \<Rightarrow> bool" where
  "trivially_behind d teamID =
     (case map_of (teams d) teamID of
        None \<Rightarrow> False
      | Some team \<Rightarrow>
          list_ex (\<lambda>(k, other_team). k \<noteq> teamID \<and> wins team + remaining team < wins other_team)
            (teams d))"

section \<open>Concrete teams and divisions\<close>

definition team_zero_entry :: team where
  "team_zero_entry =
     \<lparr>ID = 0, name = ''A'', wins = 5, losses = 2, remaining = 3, against = [0, 3, 0]\<rparr>"

definition mk_team :: "int \<Rightarrow> string \<Rightarrow> int \<Rightarrow> int \<Rightarrow> int \<Rightarrow> int list \<Rightarrow> team" where
  "mk_team i n w l r a =
     \<lparr>ID = i, name = n, wins = w, losses = l, remaining = r, against = a\<rparr>"

text \<open>Two teams tied at five wins, nothing left to play.\<close>

definition tie_division :: division where
  "tie_division =
     \<lparr>teams = [(0, mk_team 0 ''A'' 5 0 0 [0, 0]), (1, mk_team 1 ''B'' 5 0 0 [0, 0])],
      G = []\<rparr>"

text \<open>
  Three teams: A has finished on five wins, B has five wins already, and B and C have one
  game left between them.
\<close>

definition level_division :: division where
  "level_division =
     \<lparr>teams = [(0, mk_team 0 ''A'' 5 0 0 [0, 0, 0]),
               (1, mk_team 1 ''B'' 5 2 1 [0, 0, 1]),
               (2, mk_team 2 ''C'' 3 4 1 [0, 1, 0])],
      G = []\<rparr>"

text \<open>Three teams: C cannot reach B's seven wins even by winning its last game.\<close>

definition behind_division :: division where
  "behind_division =
     \<lparr>teams = [(0, mk_team 0 ''A'' 6 1 1 [0, 0, 1]),
               (1, mk_team 1 ''B'' 7 1 0 [0, 0, 0]),
               (2, mk_team 2 ''C'' 2 6 1 [1, 0, 0])],
      G = []\<rparr>"

text \<open>Three level teams with one game left between each two of them.\<close>

definition open_division :: division where
  "open_division =
     \<lparr>teams = [(0, mk_team 0 ''A'' 4 2 2 [0, 1, 1]),
               (1, mk_team 1 ''B'' 4 2 2 [1, 0, 1]),
               (2, mk_team 2 ''C'' 4 2 2 [1, 1, 0])],
      G = []\<rparr>"


text \<open>The networks built for candidate A in these two divisions.\<close>

definition open_network :: graph where
  "open_network =
     [(NStr ''S'', NTup (1, 2), Some 1), (NTup (1, 2), NInt 1, None),
      (NTup (1, 2), NInt 2, None), (NInt 1, NStr ''T'', Some 1),
      (NInt 2, NStr ''T'', Some 1)]"


section \<open>Auxiliary facts\<close>

lemma flag_fold:
  "fold (\<lambda>(k, other_team) flag. if P other_team then True else flag) xs b
     = (b \<or> list_ex (\<lambda>(k, other_team). P other_team) xs)"
  by (induction xs arbitrary: b) (auto split: prod.splits)

lemma list_ex_delete:
  "list_ex (\<lambda>(k, other_team). P other_team) (AList.delete teamID xs)
     = list_ex (\<lambda>(k, other_team). k \<noteq> teamID \<and> P other_team) xs"
  by (induction xs) (auto simp: AList.delete_eq)

lemma combinations2_fst: "(a, b) \<in> set (combinations2 xs) \<Longrightarrow> a \<in> set xs \<and> b \<in> set xs"
  by (induction xs) auto

lemma keys_delete: "set (map fst (AList.delete k xs)) = set (map fst xs) - {k}"
  by (induction xs) (auto simp: AList.delete_eq)

lemma get_against_error: "get_against t ot = Inl e \<Longrightarrow> e = ValueError"
  by (auto simp: get_against_def Let_def split: option.splits if_splits)

lemma get_against_ok: "index_accepted t (Some j) \<Longrightarrow> \<exists>n. get_against t (Some j) = Inr n"
  by (auto simp: get_against_def index_accepted_def Let_def)

lemma first_layer_error:
  "first_layer ts ps se g = (Some e, se', g') \<Longrightarrow> \<forall>p \<in> set ps. fst p \<in> fst ` set ts
     \<Longrightarrow> e = ValueError"
proof (induction ps arbitrary: se g)
  case Nil
  then show ?case by simp
next
  case (Cons p ps)
  from Cons.prems(2) obtain t where t: "map_of ts (fst p) = Some t"
    by (cases "map_of ts (fst p)") (auto simp: map_of_eq_None_iff)
  show ?case
  proof (cases "get_against t (Some (snd p))")
    case (Inl e')
    with Cons.prems t show ?thesis by (auto dest: get_against_error)
  next
    case (Inr n)
    with Cons.prems t show ?thesis by (auto intro: Cons.IH)
  qed
qed

lemma first_layer_ok:
  "\<forall>p \<in> set ps. \<exists>t. map_of ts (fst p) = Some t \<and> index_accepted t (Some (snd p))
     \<Longrightarrow> fst (first_layer ts ps se g) = None"
proof (induction ps arbitrary: se g)
  case Nil
  then show ?case by simp
next
  case (Cons p ps)
  from Cons.prems obtain t where t: "map_of ts (fst p) = Some t" "index_accepted t (Some (snd p))"
    by auto
  from get_against_ok [OF t(2)] obtain n where "get_against t (Some (snd p)) = Inr n" ..
  with Cons t show ?case by simp
qed

lemma third_layer_ok:
  "teamID \<in> fst ` set (teams d) \<Longrightarrow> set ts \<subseteq> fst ` set (teams d)
     \<Longrightarrow> fst (third_layer d teamID ts g) = None"
proof (induction ts arbitrary: g)
  case Nil
  then show ?case by simp
next
  case (Cons t ts)
  from Cons.prems obtain a b where "map_of (teams d) teamID = Some a" "map_of (teams d) t = Some b"
    by (cases "map_of (teams d) teamID"; cases "map_of (teams d) t") (auto simp: map_of_eq_None_iff)
  with Cons show ?case by (simp add: max_allowed_def)
qed

lemma create_network_error:
  assumes "teamID \<in> fst ` set (teams d)" and "fst (create_network d teamID) = Inl e"
  shows "e = ValueError"
proof -
  from assms(1) obtain a where a: "map_of (teams d) teamID = Some a"
    by (cases "map_of (teams d) teamID") (auto simp: map_of_eq_None_iff)
  let ?rem = "AList.delete teamID (teams d)"
  let ?ps = "combinations2 (map fst ?rem)"
  have sub: "set (map fst ?rem) \<subseteq> fst ` set (teams d)"
    using keys_delete [of teamID "teams d"] by auto
  have ps: "\<forall>p \<in> set ?ps. fst p \<in> fst ` set (teams d)"
    using sub combinations2_fst [of _ _ "map fst ?rem"] by fastforce
  obtain r se g1 where f: "first_layer (teams d) ?ps [] [] = (r, se, g1)"
    by (cases "first_layer (teams d) ?ps [] []") auto
  show ?thesis
  proof (cases r)
    case (Some e')
    with f ps have "e' = ValueError" by (auto dest: first_layer_error)
    with assms(2) a f Some show ?thesis by (simp add: create_network_def)
  next
    case None
    have "fst (third_layer d teamID (map fst ?rem) (second_layer se g1)) = None"
      using third_layer_ok [OF assms(1), of "map fst ?rem"] sub by simp
    then obtain g3 where "third_layer d teamID (map fst ?rem) (second_layer se g1) = (None, g3)"
      by (cases "third_layer d teamID (map fst ?rem) (second_layer se g1)") auto
    with assms(2) a f None show ?thesis by (simp add: create_network_def)
  qed
qed

lemma against_completeD:
  "against_complete d \<Longrightarrow> (i, t) \<in> set (teams d) \<Longrightarrow> j \<in> fst ` set (teams d)
     \<Longrightarrow> index_accepted t (Some j)"
  by (fastforce simp: against_complete_def list_all_iff)

lemma create_network_ok:
  assumes "teamID \<in> fst ` set (teams d)" and "against_complete d"
  shows "\<exists>se. fst (create_network d teamID) = Inr se"
proof -
  from assms(1) obtain a where a: "map_of (teams d) teamID = Some a"
    by (cases "map_of (teams d) teamID") (auto simp: map_of_eq_None_iff)
  let ?rem = "AList.delete teamID (teams d)"
  let ?ps = "combinations2 (map fst ?rem)"
  have sub: "set (map fst ?rem) \<subseteq> fst ` set (teams d)"
    using keys_delete [of teamID "teams d"] by auto
  have "\<forall>p \<in> set ?ps. \<exists>t. map_of (teams d) (fst p) = Some t \<and> index_accepted t (Some (snd p))"
  proof
    fix p assume p: "p \<in> set ?ps"
    then have k: "fst p \<in> fst ` set (teams d)" "snd p \<in> fst ` set (teams d)"
      using sub combinations2_fst [of "fst p" "snd p" "map fst ?rem"] by auto
    then obtain t where t: "map_of (teams d) (fst p) = Some t"
      by (cases "map_of (teams d) (fst p)") (auto simp: map_of_eq_None_iff)
    then have "(fst p, t) \<in> set (teams d)" by (rule map_of_SomeD)
    from against_completeD [OF assms(2) this k(2)] t
    show "\<exists>t. map_of (teams d) (fst p) = Some t \<and> index_accepted t (Some (snd p))" by simp
  qed
  from first_layer_ok [OF this, of "[]" "[]"]
  obtain se g1 where f: "first_layer (teams d) ?ps [] [] = (None, se, g1)"
    by (cases "first_layer (teams d) ?ps [] []") auto
  have "fst (third_layer d teamID (map fst ?rem) (second_layer se g1)) = None"
    using third_layer_ok [OF assms(1), of "map fst ?rem"] sub by simp
  then obtain g3 where "third_layer d teamID (map fst ?rem) (second_layer se g1) = (None, g3)"
    by (cases "third_layer d teamID (map fst ?rem) (second_layer se g1)") auto
  with a f show ?thesis by (simp add: create_network_def)
qed

lemma is_eliminated_unfold:
  assumes "map_of (teams d) teamID = Some team"
  shows "is_eliminated mf lp d teamID solver =
     (case create_network d teamID of
        (Inl e, d') \<Rightarrow> (Inl e, d')
      | (Inr saturated_edges, d') \<Rightarrow>
          (if trivially_behind d teamID then (Inr True, d')
           else if solver = ''Network Flows'' then (network_flows mf d' saturated_edges, d')
           else if solver = ''Linear Programming''
           then (linear_programming lp d' saturated_edges, d')
           else (Inr False, d')))"
  using assms
  by (simp add: is_eliminated_def trivially_behind_def flag_fold list_ex_delete
      split: prod.splits sum.splits)

lemma keys_map_of: "k \<in> set (map fst xs) \<Longrightarrow> \<exists>v. map_of xs k = Some v"
  by (cases "map_of xs k") (auto simp: map_of_eq_None_iff)

lemma solver_results_not_value_error:
  "network_flows mf d se \<noteq> Inl ValueError" "linear_programming lp d se \<noteq> Inl ValueError"
  by (auto simp: network_flows_def linear_programming_def Let_def split: sum.splits option.splits)

lemma solver_results_not_key_error:
  "network_flows mf d se \<noteq> Inl (KeyError k)" "linear_programming lp d se \<noteq> Inl (KeyError k)"
  by (auto simp: network_flows_def linear_programming_def Let_def split: sum.splits option.splits)

lemma edge_keys_simps [simp]:
  "edge_keys [] = {}" "edge_keys ((u, v, c) # g) = insert (u, v) (edge_keys g)"
  "edge_keys (g @ h) = edge_keys g \<union> edge_keys h"
  by (simp_all add: edge_keys_def)

lemma add_edge_new: "(u, v) \<notin> edge_keys g \<Longrightarrow> add_edge u v c g = g @ [(u, v, c)]"
  by (induction g) (auto simp: edge_keys_def)

lemma update_new: "k \<notin> fst ` set al \<Longrightarrow> AList.update k v al = al @ [(k, v)]"
  by (induction al) auto

lemma other_teams_delete: "map fst (AList.delete teamID ts) = filter (\<lambda>i. i \<noteq> teamID) (map fst ts)"
  by (induction ts) (auto simp: AList.delete_eq)

lemma first_layer_closed:
  assumes "first_layer (teams d) ps se g = (None, se', g')"
    and "distinct ps" and "set ps \<inter> fst ` set se = {}"
    and "\<forall>p \<in> set ps. (NStr ''S'', NTup p) \<notin> edge_keys g"
  shows "se' = se @ map (\<lambda>(i, j). ((i, j), games_between d i j)) ps
         \<and> g' = g @ map (\<lambda>(i, j). (NStr ''S'', NTup (i, j), Some (games_between d i j))) ps"
  using assms
proof (induction ps arbitrary: se g)
  case Nil
  then show ?case by simp
next
  case (Cons p ps)
  obtain i j where p: "p = (i, j)" by (cases p)
  from Cons.prems(1) obtain t where t: "map_of (teams d) i = Some t"
    by (cases "map_of (teams d) i") (auto simp: p)
  from Cons.prems(1) t obtain n where n: "get_against t (Some j) = Inr n"
    by (cases "get_against t (Some j)") (auto simp: p)
  have gb: "games_between d i j = n" using t n by (simp add: games_between_def)
  have u: "AList.update p n se = se @ [(p, n)]"
    using Cons.prems(3) by (intro update_new) auto
  have a: "add_edge (NStr ''S'') (NTup p) (Some n) g = g @ [(NStr ''S'', NTup p, Some n)]"
    using Cons.prems(4) by (intro add_edge_new) auto
  have rec: "first_layer (teams d) ps (se @ [(p, n)]) (g @ [(NStr ''S'', NTup p, Some n)])
               = (None, se', g')"
    using Cons.prems(1) t n u a by (simp add: p)
  have "se' = (se @ [(p, n)]) @ map (\<lambda>(i, j). ((i, j), games_between d i j)) ps
         \<and> g' = (g @ [(NStr ''S'', NTup p, Some n)])
                @ map (\<lambda>(i, j). (NStr ''S'', NTup (i, j), Some (games_between d i j))) ps"
  proof (rule Cons.IH [OF rec])
    show "distinct ps" using Cons.prems(2) by simp
    show "set ps \<inter> fst ` set (se @ [(p, n)]) = {}" using Cons.prems(2,3) by auto
    show "\<forall>q \<in> set ps. (NStr ''S'', NTup q) \<notin> edge_keys (g @ [(NStr ''S'', NTup p, Some n)])"
      using Cons.prems(2,4) by auto
  qed
  then show ?case by (simp add: p gb)
qed

lemma second_layer_closed:
  assumes "distinct (map fst se)" and "\<forall>p \<in> fst ` set se. fst p \<noteq> snd p"
    and "\<forall>p \<in> fst ` set se. \<forall>v. (NTup p, v) \<notin> edge_keys g"
  shows "second_layer se g =
           g @ concat (map (\<lambda>(p, n). [(NTup p, NInt (fst p), None), (NTup p, NInt (snd p), None)]) se)"
  using assms
proof (induction se arbitrary: g)
  case Nil
  then show ?case by (simp add: second_layer_def)
next
  case (Cons e se)
  obtain p n where e: "e = (p, n)" by (cases e)
  let ?g1 = "g @ [(NTup p, NInt (fst p), None)]"
  let ?g2 = "?g1 @ [(NTup p, NInt (snd p), None)]"
  have a1: "add_edge (NTup p) (NInt (fst p)) None g = ?g1"
    using Cons.prems(3) by (intro add_edge_new) (auto simp: e)
  have a2: "add_edge (NTup p) (NInt (snd p)) None ?g1 = ?g2"
    using Cons.prems(2,3) by (intro add_edge_new) (auto simp: e)
  have step: "second_layer (e # se) g = second_layer se ?g2"
    by (simp add: second_layer_def e a1 a2)
  have "second_layer se ?g2 =
          ?g2 @ concat (map (\<lambda>(p, n). [(NTup p, NInt (fst p), None), (NTup p, NInt (snd p), None)]) se)"
  proof (rule Cons.IH)
    show "distinct (map fst se)" using Cons.prems(1) by simp
    show "\<forall>p \<in> fst ` set se. fst p \<noteq> snd p" using Cons.prems(2) by simp
    show "\<forall>q \<in> fst ` set se. \<forall>v. (NTup q, v) \<notin> edge_keys ?g2"
      using Cons.prems(1,3) by (auto simp: e)
  qed
  with step show ?case by (simp add: e)
qed

lemma third_layer_closed:
  assumes "map_of (teams d) c = Some tc" and "set ts \<subseteq> fst ` set (teams d)"
    and "distinct ts" and "\<forall>i \<in> set ts. (NInt i, NStr ''T'') \<notin> edge_keys g"
  shows "third_layer d c ts g =
           (None, g @ map (\<lambda>i. (NInt i, NStr ''T'', Some (sink_capacity d c i))) ts)"
  using assms(2-)
proof (induction ts arbitrary: g)
  case Nil
  then show ?case by simp
next
  case (Cons i ts)
  from Cons.prems(1) obtain ti where ti: "map_of (teams d) i = Some ti"
    by (cases "map_of (teams d) i") (auto simp: map_of_eq_None_iff)
  have m: "max_allowed d c i = Inr (sink_capacity d c i)"
    using assms(1) ti by (simp add: max_allowed_def sink_capacity_def)
  let ?g1 = "g @ [(NInt i, NStr ''T'', Some (sink_capacity d c i))]"
  have a: "add_edge (NInt i) (NStr ''T'') (Some (sink_capacity d c i)) g = ?g1"
    using Cons.prems(3) by (intro add_edge_new) auto
  have "third_layer d c ts ?g1 =
          (None, ?g1 @ map (\<lambda>i. (NInt i, NStr ''T'', Some (sink_capacity d c i))) ts)"
  proof (rule Cons.IH)
    show "set ts \<subseteq> fst ` set (teams d)" using Cons.prems(1) by simp
    show "distinct ts" using Cons.prems(2) by simp
    show "\<forall>k \<in> set ts. (NInt k, NStr ''T'') \<notin> edge_keys ?g1"
      using Cons.prems(2,3) by auto
  qed
  then show ?case by (simp add: m a)
qed

lemma combinations2_distinct: "distinct xs \<Longrightarrow> distinct (combinations2 xs)"
proof (induction xs)
  case Nil
  then show ?case by simp
next
  case (Cons x xs)
  have "distinct (map (Pair x) xs)" using Cons.prems by (simp add: distinct_map inj_on_def)
  moreover have "set (map (Pair x) xs) \<inter> set (combinations2 xs) = {}"
    using Cons.prems combinations2_fst [of x _ xs] by auto
  ultimately show ?case using Cons by simp
qed

lemma combinations2_neq: "distinct xs \<Longrightarrow> (a, b) \<in> set (combinations2 xs) \<Longrightarrow> a \<noteq> b"
  by (induction xs) (auto dest: combinations2_fst)



lemma create_network_closed:
  assumes "distinct (get_team_IDs d)" and "create_network d teamID = (Inr se, d')"
  shows "se = spec_saturated d teamID \<and> d' = d\<lparr>G := spec_network d teamID\<rparr>"
proof -
  from assms(2) obtain tc where tc: "map_of (teams d) teamID = Some tc"
    by (cases "map_of (teams d) teamID") (auto simp: create_network_def)
  let ?rem = "AList.delete teamID (teams d)"
  have ot: "map fst ?rem = other_teams d teamID"
    by (simp add: other_teams_def get_team_IDs_def other_teams_delete)
  let ?ps = "combinations2 (other_teams d teamID)"
  have dist: "distinct (other_teams d teamID)"
    using assms(1) by (simp add: other_teams_def)
  obtain r se1 g1 where f: "first_layer (teams d) ?ps [] [] = (r, se1, g1)"
    by (cases "first_layer (teams d) ?ps [] []") auto
  with assms(2) tc have r: "r = None"
    by (cases r) (auto simp: create_network_def ot)
  from first_layer_closed [OF f [unfolded r] combinations2_distinct [OF dist]]
  have se1: "se1 = spec_saturated d teamID"
    and g1: "g1 = map (\<lambda>(i, j). (NStr ''S'', NTup (i, j), Some (games_between d i j))) ?ps"
    by (simp_all add: spec_saturated_def)
  have g1': "g1 = map (\<lambda>(p, n). (NStr ''S'', NTup p, Some n)) (spec_saturated d teamID)"
    by (simp add: g1 spec_saturated_def case_prod_unfold comp_def)
  have keys: "map fst (spec_saturated d teamID) = ?ps"
    by (simp add: spec_saturated_def case_prod_unfold comp_def)
  have s2: "second_layer se1 g1 =
     g1 @ concat (map (\<lambda>(p, n). [(NTup p, NInt (fst p), None), (NTup p, NInt (snd p), None)]) se1)"
  proof (rule second_layer_closed)
    show "distinct (map fst se1)" by (simp add: se1 keys combinations2_distinct [OF dist])
    show "\<forall>p \<in> fst ` set se1. fst p \<noteq> snd p"
      using combinations2_neq [OF dist] keys by (auto simp: se1 simp flip: set_map)
    show "\<forall>p \<in> fst ` set se1. \<forall>v. (NTup p, v) \<notin> edge_keys g1"
      by (auto simp: g1 edge_keys_def)
  qed
  have sub: "set (other_teams d teamID) \<subseteq> fst ` set (teams d)"
    by (auto simp: other_teams_def get_team_IDs_def)
  have s3: "third_layer d teamID (other_teams d teamID) (second_layer se1 g1) =
     (None, second_layer se1 g1
        @ map (\<lambda>i. (NInt i, NStr ''T'', Some (sink_capacity d teamID i))) (other_teams d teamID))"
  proof (rule third_layer_closed [OF tc sub dist])
    show "\<forall>i \<in> set (other_teams d teamID). (NInt i, NStr ''T'') \<notin> edge_keys (second_layer se1 g1)"
      by (simp only: s2) (auto simp: g1 edge_keys_def split: prod.splits)
  qed
  from assms(2) tc f r s3
  have "se = se1" "d' = d\<lparr>G := second_layer se1 g1
        @ map (\<lambda>i. (NInt i, NStr ''T'', Some (sink_capacity d teamID i))) (other_teams d teamID)\<rparr>"
    by (auto simp: create_network_def ot)
  moreover have "second_layer se1 g1
        @ map (\<lambda>i. (NInt i, NStr ''T'', Some (sink_capacity d teamID i))) (other_teams d teamID)
      = spec_network d teamID"
    unfolding s2 spec_network_def by (simp add: se1 g1')
  ultimately show ?thesis by (simp add: se1)
qed



lemma spec_network_set:
  "set (spec_network d c) =
     {(NStr ''S'', NTup p, Some n) | p n. (p, n) \<in> set (spec_saturated d c)}
     \<union> {(NTup p, NInt (fst p), None) | p. p \<in> set (combinations2 (other_teams d c))}
     \<union> {(NTup p, NInt (snd p), None) | p. p \<in> set (combinations2 (other_teams d c))}
     \<union> {(NInt i, NStr ''T'', Some (sink_capacity d c i)) | i. i \<in> set (other_teams d c)}"
  unfolding spec_network_def
  by (auto simp: spec_saturated_def image_iff split: prod.splits) force+


lemma other_teams_set: "set (other_teams d c) = set (get_team_IDs d) - {c}"
  by (auto simp: other_teams_def)

lemma level_division_facts:
  "0 \<in> set (get_team_IDs level_division)" "against_complete level_division"
  "\<not> trivially_behind level_division 0"
  by (simp_all add: get_team_IDs_def level_division_def against_complete_def index_accepted_def
      trivially_behind_def mk_team_def)

lemma behind_division_facts:
  "2 \<in> set (get_team_IDs behind_division)" "against_complete behind_division"
  "trivially_behind behind_division 2"
  by (simp_all add: get_team_IDs_def behind_division_def against_complete_def index_accepted_def
      trivially_behind_def mk_team_def)

lemma behind_division_dict:
  "distinct (get_team_IDs behind_division)"
  "map_of (teams behind_division) 2 = Some (mk_team 2 ''C'' 2 6 1 [1, 0, 0])"
  "map_of (teams behind_division) 0 = Some (mk_team 0 ''A'' 6 1 1 [0, 0, 1])"
  by (simp_all add: get_team_IDs_def behind_division_def)

lemma edge_capacities_negative:
  "(u, v, Some k) \<in> set g \<Longrightarrow> k < 0 \<Longrightarrow> edge_capacities g = None"
proof (induction g)
  case Nil
  then show ?case by simp
next
  case (Cons e g)
  obtain a b c where e: "e = (a, b, c)" by (cases e)
  show ?case
  proof (cases c)
    case None
    with Cons e show ?thesis by auto
  next
    case (Some m)
    with Cons e show ?thesis by (cases "m < 0") (auto split: option.splits)
  qed
qed

lemma sink_edge_in_spec_network:
  assumes "(NInt i, NStr ''T'', Some k) \<in> set (spec_network d c)"
  shows "i \<in> set (other_teams d c) \<and> k = sink_capacity d c i"
  using assms unfolding spec_network_set by auto

lemma level_network:
  "create_network level_division 0 =
     (Inr [((1, 2), 1)],
      level_division
        \<lparr>G := [(NStr ''S'', NTup (1, 2), Some 1), (NTup (1, 2), NInt 1, None),
               (NTup (1, 2), NInt 2, None), (NInt 1, NStr ''T'', Some (- 1)),
               (NInt 2, NStr ''T'', Some 1)]\<rparr>)"
  by (simp add: level_division_def mk_team_def create_network_def AList.delete_eq
      get_against_def second_layer_def max_allowed_def)

lemma behind_network:
  "create_network behind_division 2 =
     (Inr [((0, 1), 0)],
      behind_division
        \<lparr>G := [(NStr ''S'', NTup (0, 1), Some 0), (NTup (0, 1), NInt 0, None),
               (NTup (0, 1), NInt 1, None), (NInt 0, NStr ''T'', Some (- 4)),
               (NInt 1, NStr ''T'', Some (- 5))]\<rparr>)"
  by (simp add: behind_division_def mk_team_def create_network_def AList.delete_eq
      get_against_def second_layer_def max_allowed_def)

lemma flows_upto_bounds:
  "fl \<in> set (flows_upto bs) \<Longrightarrow> list_all2 (\<lambda>x b. 0 \<le> x \<and> x \<le> b) fl bs"
  by (induction bs arbitrary: fl) auto

lemma outflow_le:
  "list_all2 (\<lambda>x e. 0 \<le> x \<and> x \<le> edge_bound b e) fl g
     \<Longrightarrow> outflow g fl s \<le> sum_list (map (\<lambda>e. if fst e = s then edge_bound b e else 0) g)"
  unfolding outflow_def
  by (induction fl g rule: list_all2_induct) (auto split: prod.splits)

lemma inflow_nonneg:
  "list_all2 (\<lambda>x e. 0 \<le> x \<and> x \<le> edge_bound b e) fl g \<Longrightarrow> 0 \<le> inflow g fl s"
  unfolding inflow_def
  by (induction fl g rule: list_all2_induct) (auto split: prod.splits)

lemma fold_max_le: "\<forall>x \<in> set xs. x \<le> m \<Longrightarrow> a \<le> m \<Longrightarrow> fold max xs a \<le> (m::int)"
  by (induction xs arbitrary: a) auto

lemma fold_max_ge: "a \<le> fold max xs (a::int)"
proof (induction xs arbitrary: a)
  case Nil
  then show ?case by simp
next
  case (Cons x xs)
  have "a \<le> max x a" by simp
  also have "\<dots> \<le> fold max xs (max x a)" by (rule Cons.IH)
  finally show ?case by simp
qed

lemma max_flow_le_source_capacity:
  assumes "nx_maximum_flow g s t = Inr v"
  shows "0 \<le> v
    \<and> (0 \<le> sum_list (map (\<lambda>e. if fst e = s then edge_bound (finite_total (residual_edges g)) e else 0)
                          (residual_edges g))
        \<longrightarrow> v \<le> sum_list (map (\<lambda>e. if fst e = s then edge_bound (finite_total (residual_edges g)) e else 0)
                          (residual_edges g)))"
proof -
  let ?r = "residual_edges g"
  let ?b = "finite_total ?r"
  let ?m = "sum_list (map (\<lambda>e. if fst e = s then edge_bound ?b e else 0) ?r)"
  let ?fls = "filter (\<lambda>fl. conserved ?r fl s t) (flows_upto (map (edge_bound ?b) ?r))"
  from assms have v: "v = fold max (map (\<lambda>fl. flow_amount ?r fl s) ?fls) 0"
    by (simp add: nx_maximum_flow_def Let_def split: if_splits)
  have ge: "0 \<le> v" unfolding v by (rule fold_max_ge)
  have le: "v \<le> ?m" if "0 \<le> ?m"
    unfolding v
  proof (rule fold_max_le [OF _ that], rule ballI)
    fix x assume "x \<in> set (map (\<lambda>fl. flow_amount ?r fl s) ?fls)"
    then obtain fl where fl: "fl \<in> set (flows_upto (map (edge_bound ?b) ?r))"
      and x: "x = flow_amount ?r fl s" by auto
    from flows_upto_bounds [OF fl]
    have b: "list_all2 (\<lambda>x e. 0 \<le> x \<and> x \<le> edge_bound ?b e) fl ?r"
      by (simp add: list_all2_map2)
    from outflow_le [OF b, of s] inflow_nonneg [OF b, of s]
    show "x \<le> ?m" by (simp add: x flow_amount_def)
  qed
  from ge le show ?thesis by blast
qed


lemma residual_edges_append: "residual_edges (g @ h) = residual_edges g @ residual_edges h"
  by (simp add: residual_edges_def)

lemma source_sum_other:
  "\<forall>e \<in> set g. fst e \<noteq> s
     \<Longrightarrow> sum_list (map (\<lambda>e. if fst e = s then edge_bound b e else 0) (residual_edges g)) = 0"
  by (induction g) (auto simp: residual_edges_def)

lemma source_sum_first_layer:
  "\<forall>x \<in> set se. 0 \<le> snd x
     \<Longrightarrow> sum_list (map (\<lambda>e. if fst e = NStr ''S'' then edge_bound b e else 0)
           (residual_edges (map (\<lambda>(p, n). (NStr ''S'', NTup p, Some n)) se)))
         \<le> sum_list (map snd se)
       \<and> 0 \<le> sum_list (map (\<lambda>e. if fst e = NStr ''S'' then edge_bound b e else 0)
           (residual_edges (map (\<lambda>(p, n). (NStr ''S'', NTup p, Some n)) se)))"
  by (induction se) (auto simp: residual_edges_def edge_bound_def)

lemma source_sum_spec_network:
  assumes "\<forall>x \<in> set (spec_saturated d c). 0 \<le> snd x"
  shows "sum_list (map (\<lambda>e. if fst e = NStr ''S'' then edge_bound b e else 0)
           (residual_edges (spec_network d c)))
         \<le> sum_list (map snd (spec_saturated d c))
       \<and> 0 \<le> sum_list (map (\<lambda>e. if fst e = NStr ''S'' then edge_bound b e else 0)
           (residual_edges (spec_network d c)))"
proof -
  have two: "sum_list (map (\<lambda>e. if fst e = NStr ''S'' then edge_bound b e else 0)
      (residual_edges (concat (map (\<lambda>(p, n). [(NTup p, NInt (fst p), None), (NTup p, NInt (snd p), None)])
                 (spec_saturated d c))))) = 0"
    by (rule source_sum_other) auto
  have three: "sum_list (map (\<lambda>e. if fst e = NStr ''S'' then edge_bound b e else 0)
      (residual_edges (map (\<lambda>i. (NInt i, NStr ''T'', Some (sink_capacity d c i))) (other_teams d c)))) = 0"
    by (rule source_sum_other) auto
  from source_sum_first_layer [OF assms, of b] two three show ?thesis
    by (simp add: spec_network_def residual_edges_append)
qed

lemma get_against_in_list: "get_against t ot = Inr n \<Longrightarrow> n \<in> set (against t)"
  by (auto simp: get_against_def Let_def split: option.splits if_splits)

lemma games_between_nonneg:
  assumes "against_nonneg d"
  shows "0 \<le> games_between d i j"
proof (cases "map_of (teams d) i")
  case None
  then show ?thesis by (simp add: games_between_def)
next
  case (Some t)
  then have t: "(i, t) \<in> set (teams d)" by (rule map_of_SomeD)
  show ?thesis
  proof (cases "get_against t (Some j)")
    case (Inl e)
    with Some show ?thesis by (simp add: games_between_def)
  next
    case (Inr n)
    from get_against_in_list [OF Inr] t assms have "0 \<le> n"
      by (fastforce simp: against_nonneg_def list_all_iff)
    with Some Inr show ?thesis by (simp add: games_between_def)
  qed
qed

lemma spec_saturated_nonneg:
  "against_nonneg d \<Longrightarrow> \<forall>x \<in> set (spec_saturated d c). 0 \<le> snd x"
  by (auto simp: spec_saturated_def games_between_nonneg)

lemma inf_step_fixed:
  assumes "\<forall>e \<in> set g. fst e = s \<longrightarrow> snd (snd e) \<noteq> None"
  shows "(inf_step g ^^ n) [s] = [s]"
proof (induction n)
  case 0
  then show ?case by simp
next
  case (Suc n)
  have "filter (\<lambda>(u, v, c). c = None \<and> u \<in> set [s]) g = []"
    using assms by (auto simp: filter_empty_conv)
  then have "inf_step g [s] = [s]" by (simp add: inf_step_def)
  with Suc show ?case by simp
qed

lemma spec_network_bounded:
  "\<not> unbounded (residual_edges (spec_network d c)) (NStr ''S'') (NStr ''T'')"
proof -
  have "\<forall>e \<in> set (residual_edges (spec_network d c)). fst e = NStr ''S'' \<longrightarrow> snd (snd e) \<noteq> None"
    by (auto simp: residual_edges_def spec_network_def)
  from inf_step_fixed [OF this] show ?thesis by (simp add: unbounded_def)
qed

lemma spec_network_source:
  "NStr ''S'' \<in> set (graph_nodes (spec_network d c)) \<longleftrightarrow> spec_saturated d c \<noteq> []"
  by (cases "spec_saturated d c") (auto simp: graph_nodes_def spec_network_def)

lemma spec_network_sink:
  "NStr ''T'' \<in> set (graph_nodes (spec_network d c)) \<longleftrightarrow> other_teams d c \<noteq> []"
  by (cases "other_teams d c") (auto simp: graph_nodes_def spec_network_def)

lemma spec_saturated_other_teams: "spec_saturated d c \<noteq> [] \<Longrightarrow> other_teams d c \<noteq> []"
  by (auto simp: spec_saturated_def)

lemma max_flow_spec_network:
  assumes "against_nonneg d"
  shows "(spec_saturated d c \<noteq> [] \<longrightarrow>
            (\<exists>v. nx_maximum_flow (spec_network d c) (NStr ''S'') (NStr ''T'') = Inr v
               \<and> 0 \<le> v \<and> v \<le> sum_list (map snd (spec_saturated d c))))
       \<and> (spec_saturated d c = [] \<longrightarrow>
            nx_maximum_flow (spec_network d c) (NStr ''S'') (NStr ''T'') = Inl NetworkXError)"
proof (intro conjI impI)
  assume "spec_saturated d c = []"
  then show "nx_maximum_flow (spec_network d c) (NStr ''S'') (NStr ''T'') = Inl NetworkXError"
    using spec_network_source [of d c] by (simp add: nx_maximum_flow_def)
next
  assume ne: "spec_saturated d c \<noteq> []"
  let ?g = "spec_network d c"
  have "\<exists>v. nx_maximum_flow ?g (NStr ''S'') (NStr ''T'') = Inr v"
    using ne spec_saturated_other_teams [OF ne] spec_network_source [of d c]
      spec_network_sink [of d c] spec_network_bounded [of d c]
    by (simp add: nx_maximum_flow_def Let_def)
  then obtain v where v: "nx_maximum_flow ?g (NStr ''S'') (NStr ''T'') = Inr v" ..
  from source_sum_spec_network [OF spec_saturated_nonneg [OF assms, of c],
      where b = "finite_total (residual_edges ?g)"]
    max_flow_le_source_capacity [OF v]
  have "0 \<le> v \<and> v \<le> sum_list (map snd (spec_saturated d c))" by linarith
  with v show "\<exists>v. nx_maximum_flow ?g (NStr ''S'') (NStr ''T'') = Inr v
               \<and> 0 \<le> v \<and> v \<le> sum_list (map snd (spec_saturated d c))" by blast
qed

lemma flows_upto_member:
  "list_all2 (\<lambda>x b. 0 \<le> x \<and> x \<le> b) fl bs \<Longrightarrow> fl \<in> set (flows_upto bs)"
  by (induction fl bs rule: list_all2_induct) auto

lemma outflow_nonneg:
  "list_all2 (\<lambda>x e. 0 \<le> x \<and> Q x e) fl g \<Longrightarrow> 0 \<le> outflow g fl u"
  unfolding outflow_def
  by (induction fl g rule: list_all2_induct) (auto split: prod.splits)

lemma outflow_Cons:
  "outflow (e # g) (x # fl) u = (if fst e = u then x else 0) + outflow g fl u"
  by (cases e) (simp add: outflow_def)

lemma edge_flow_le_outflow:
  "list_all2 (\<lambda>x e. 0 \<le> x \<and> Q x e) fl g \<Longrightarrow> i < length g \<Longrightarrow> fst (g ! i) = u
     \<Longrightarrow> fl ! i \<le> outflow g fl u"
proof (induction fl g arbitrary: i rule: list_all2_induct)
  case Nil
  then show ?case by simp
next
  case (Cons x fl e g)
  show ?case
  proof (cases i)
    case 0
    with Cons.prems outflow_nonneg [OF Cons.hyps(2), of u] show ?thesis
      by (simp add: outflow_Cons)
  next
    case (Suc j)
    with Cons.prems have "fl ! j \<le> outflow g fl u" by (intro Cons.IH) simp_all
    with Suc Cons.hyps(1) show ?thesis by (simp add: outflow_Cons)
  qed
qed

lemma inflow_le_finite_total:
  assumes "list_all2 (\<lambda>x e. 0 \<le> x \<and> (case snd (snd e) of None \<Rightarrow> True | Some k \<Rightarrow> x \<le> k)) fl g"
    and "\<forall>e \<in> set g. snd (snd e) \<noteq> None \<or> fst (snd e) \<noteq> u"
    and "\<forall>e \<in> set g. \<forall>k. snd (snd e) = Some k \<longrightarrow> 0 \<le> k"
  shows "inflow g fl u \<le> finite_total g"
  using assms unfolding inflow_def finite_total_def
proof (induction fl g rule: list_all2_induct)
  case Nil
  then show ?case by simp
next
  case (Cons x fl e g)
  obtain a b c where e: "e = (a, b, c)" by (cases e)
  have "(if b = u then x else 0) \<le> (case c of None \<Rightarrow> 0 | Some k \<Rightarrow> k)"
    using Cons.hyps(1) Cons.prems by (cases c) (auto simp: e)
  moreover have "(\<Sum>((u', v, c), x)\<leftarrow>zip g fl. if v = u then x else 0)
                   \<le> (\<Sum>(u', v, c)\<leftarrow>g. case c of None \<Rightarrow> 0 | Some k \<Rightarrow> k)"
    using Cons.prems by (intro Cons.IH) auto
  ultimately show ?case by (simp add: e)
qed


lemma residual_edges_positive:
  "\<forall>e \<in> set (residual_edges g). \<forall>k. snd (snd e) = Some k \<longrightarrow> 0 \<le> k"
  by (auto simp: residual_edges_def)

lemma residual_edges_subset: "e \<in> set (residual_edges g) \<Longrightarrow> e \<in> set g"
  by (simp add: residual_edges_def)

lemma spec_network_uncapacitated_edge:
  "(u, v, None) \<in> set (spec_network d c) \<Longrightarrow> \<exists>p. u = NTup p"
  unfolding spec_network_set by blast

lemma spec_network_into_pair_edge:
  "(u, NTup p, k) \<in> set (spec_network d c) \<Longrightarrow> k \<noteq> None"
  unfolding spec_network_set by blast

lemma spec_network_uncapacitated:
  assumes "e \<in> set (residual_edges (spec_network d c))" and "snd (snd e) = None"
  shows "\<exists>p. fst e = NTup p"
proof -
  obtain u v k where e: "e = (u, v, k)" by (cases e)
  from assms e have "(u, v, None) \<in> set (spec_network d c)"
    by (auto dest: residual_edges_subset)
  from spec_network_uncapacitated_edge [OF this] e show ?thesis by simp
qed

lemma spec_network_into_pair:
  "\<forall>e \<in> set (residual_edges (spec_network d c)). snd (snd e) \<noteq> None \<or> fst (snd e) \<noteq> NTup p"
proof
  fix e assume m: "e \<in> set (residual_edges (spec_network d c))"
  obtain u v k where e: "e = (u, v, k)" by (cases e)
  show "snd (snd e) \<noteq> None \<or> fst (snd e) \<noteq> NTup p"
  proof (cases "v = NTup p")
    case True
    with m e have "(u, NTup p, k) \<in> set (spec_network d c)"
      by (auto dest: residual_edges_subset)
    from spec_network_into_pair_edge [OF this] e show ?thesis by simp
  next
    case False
    with e show ?thesis by simp
  qed
qed

lemma source_in_graph_nodes: "e \<in> set g \<Longrightarrow> fst e \<in> set (graph_nodes g)"
  by (induction g) (auto simp: graph_nodes_def)

lemma conservedD:
  assumes "conserved g fl s t" and "e \<in> set g" and "fst e \<noteq> s" and "fst e \<noteq> t"
  shows "inflow g fl (fst e) = outflow g fl (fst e)"
proof -
  from assms(1) source_in_graph_nodes [OF assms(2)]
  have "fst e = s \<or> fst e = t \<or> inflow g fl (fst e) = outflow g fl (fst e)"
    by (simp add: conserved_def list_all_iff)
  with assms(3,4) show ?thesis by simp
qed

lemma feasible_flow_enumerated:
  assumes "feasible_flow (residual_edges (spec_network d c)) fl (NStr ''S'') (NStr ''T'')"
  shows "fl \<in> set (flows_upto (map (edge_bound (finite_total (residual_edges (spec_network d c))))
                                (residual_edges (spec_network d c))))"
proof -
  let ?r = "residual_edges (spec_network d c)"
  let ?b = "finite_total ?r"
  from assms
  have caps: "list_all2 (\<lambda>x e. 0 \<le> x \<and> (case snd (snd e) of None \<Rightarrow> True | Some k \<Rightarrow> x \<le> k)) fl ?r"
    and cons: "conserved ?r fl (NStr ''S'') (NStr ''T'')"
    by (simp_all add: feasible_flow_def)
  from caps have len: "length fl = length ?r" by (rule list_all2_lengthD)
  have "list_all2 (\<lambda>x e. 0 \<le> x \<and> x \<le> edge_bound ?b e) fl ?r"
  proof (rule list_all2_all_nthI [OF len])
    fix i assume i: "i < length fl"
    then have ir: "i < length ?r" by (simp add: len)
    from list_all2_nthD [OF caps i]
    have x: "0 \<le> fl ! i"
      and cap: "case snd (snd (?r ! i)) of None \<Rightarrow> True | Some k \<Rightarrow> fl ! i \<le> k"
      by simp_all
    obtain a b k where e: "?r ! i = (a, b, k)" by (cases "?r ! i")
    have mem: "?r ! i \<in> set ?r" using ir by simp
    have "fl ! i \<le> edge_bound ?b (?r ! i)"
    proof (cases k)
      case (Some m)
      with cap e show ?thesis by (simp add: edge_bound_def)
    next
      case None
      with e spec_network_uncapacitated [OF mem] obtain p where a: "a = NTup p" by auto
      have "fl ! i \<le> outflow ?r fl a"
        using edge_flow_le_outflow [OF caps ir, of a] e by simp
      also have "\<dots> = inflow ?r fl a"
        using conservedD [OF cons mem] e a by simp
      also have "\<dots> \<le> ?b"
        unfolding a
        by (rule inflow_le_finite_total [OF caps spec_network_into_pair residual_edges_positive])
      finally show ?thesis using e None by (simp add: edge_bound_def)
    qed
    with x show "0 \<le> fl ! i \<and> fl ! i \<le> edge_bound ?b (?r ! i)" by simp
  qed
  then have "list_all2 (\<lambda>x b. 0 \<le> x \<and> x \<le> b) fl (map (edge_bound ?b) ?r)"
    by (simp add: list_all2_map2)
  then show ?thesis by (rule flows_upto_member)
qed

lemma fold_max_upper: "x \<in> set xs \<Longrightarrow> x \<le> fold max xs (a::int)"
proof (induction xs arbitrary: a)
  case Nil
  then show ?case by simp
next
  case (Cons y ys)
  show ?case
  proof (cases "x = y")
    case True
    have "x \<le> max y a" using True by simp
    also have "\<dots> \<le> fold max ys (max y a)" by (rule fold_max_ge)
    finally show ?thesis by simp
  next
    case False
    with Cons.prems have "x \<in> set ys" by simp
    from Cons.IH [OF this] show ?thesis by simp
  qed
qed

lemma fold_max_attained: "fold max xs (a::int) = a \<or> fold max xs a \<in> set xs"
proof (induction xs arbitrary: a)
  case Nil
  then show ?case by simp
next
  case (Cons y ys)
  from Cons.IH [of "max y a"] show ?case by (auto simp: max_def split: if_splits)
qed

lemma outflow_zero: "outflow g (replicate (length g) 0) n = 0"
  by (induction g) (simp_all add: outflow_def case_prod_unfold)

lemma inflow_zero: "inflow g (replicate (length g) 0) n = 0"
  by (induction g) (simp_all add: inflow_def case_prod_unfold)

lemma zero_flow_caps:
  "\<forall>e \<in> set g. \<forall>k. snd (snd e) = Some k \<longrightarrow> 0 \<le> k \<Longrightarrow>
     list_all2 (\<lambda>x e. 0 \<le> x \<and> (case snd (snd e) of None \<Rightarrow> True | Some k \<Rightarrow> x \<le> k))
       (replicate (length g) 0) (g::graph)"
proof (induction g)
  case Nil
  then show ?case by simp
next
  case (Cons e g)
  then have "list_all2 (\<lambda>x e. 0 \<le> x \<and> (case snd (snd e) of None \<Rightarrow> True | Some k \<Rightarrow> x \<le> k))
       (replicate (length g) 0) g" by simp
  moreover have "case snd (snd e) of None \<Rightarrow> True | Some k \<Rightarrow> 0 \<le> k"
    using Cons.prems by (cases "snd (snd e)") simp_all
  ultimately show ?case by simp
qed

lemma zero_flow_feasible:
  assumes "\<forall>e \<in> set (g::graph). \<forall>k. snd (snd e) = Some k \<longrightarrow> 0 \<le> k"
  shows "feasible_flow g (replicate (length g) 0) s t"
    and "flow_amount g (replicate (length g) 0) s = 0"
  using zero_flow_caps [OF assms]
  by (simp_all add: feasible_flow_def conserved_def list_all_iff inflow_zero outflow_zero
      flow_amount_def)

lemma nx_maximum_flow_is_maximum:
  assumes "nx_maximum_flow (spec_network d c) (NStr ''S'') (NStr ''T'') = Inr v"
  shows "(\<exists>fl. feasible_flow (residual_edges (spec_network d c)) fl (NStr ''S'') (NStr ''T'')
             \<and> flow_amount (residual_edges (spec_network d c)) fl (NStr ''S'') = v)
       \<and> (\<forall>fl. feasible_flow (residual_edges (spec_network d c)) fl (NStr ''S'') (NStr ''T'')
             \<longrightarrow> flow_amount (residual_edges (spec_network d c)) fl (NStr ''S'') \<le> v)"
proof (intro conjI allI impI)
  let ?r = "residual_edges (spec_network d c)"
  let ?b = "finite_total ?r"
  let ?fls = "filter (\<lambda>fl. conserved ?r fl (NStr ''S'') (NStr ''T''))
                (flows_upto (map (edge_bound ?b) ?r))"
  from assms have v: "v = fold max (map (\<lambda>fl. flow_amount ?r fl (NStr ''S'')) ?fls) 0"
    by (simp add: nx_maximum_flow_def Let_def split: if_splits)
  {
    fix fl assume f: "feasible_flow ?r fl (NStr ''S'') (NStr ''T'')"
    from feasible_flow_enumerated [OF f] f have "fl \<in> set ?fls"
      by (simp add: feasible_flow_def)
    then have "flow_amount ?r fl (NStr ''S'') \<in> set (map (\<lambda>fl. flow_amount ?r fl (NStr ''S'')) ?fls)"
      unfolding set_map by (rule imageI)
    then show "flow_amount ?r fl (NStr ''S'') \<le> v"
      unfolding v by (rule fold_max_upper)
  }
  from fold_max_attained [of "map (\<lambda>fl. flow_amount ?r fl (NStr ''S'')) ?fls" 0]
  consider (zero) "v = 0" | (flow) "v \<in> set (map (\<lambda>fl. flow_amount ?r fl (NStr ''S'')) ?fls)"
    unfolding v by (rule disjE) simp_all
  then show "\<exists>fl. feasible_flow ?r fl (NStr ''S'') (NStr ''T'') \<and> flow_amount ?r fl (NStr ''S'') = v"
  proof cases
    case zero
    have "feasible_flow ?r (replicate (length ?r) 0) (NStr ''S'') (NStr ''T'')
            \<and> flow_amount ?r (replicate (length ?r) 0) (NStr ''S'') = v"
      unfolding zero
      by (intro conjI zero_flow_feasible residual_edges_positive)
    then show ?thesis by (rule exI)
  next
    case flow
    then obtain fl where fl: "fl \<in> set (flows_upto (map (edge_bound ?b) ?r))"
      and c: "conserved ?r fl (NStr ''S'') (NStr ''T'')"
      and x: "v = flow_amount ?r fl (NStr ''S'')" by auto
    from flows_upto_bounds [OF fl]
    have "list_all2 (\<lambda>x e. 0 \<le> x \<and> x \<le> edge_bound ?b e) fl ?r"
      by (simp add: list_all2_map2)
    then have "list_all2 (\<lambda>x e. 0 \<le> x \<and> (case snd (snd e) of None \<Rightarrow> True | Some k \<Rightarrow> x \<le> k)) fl ?r"
      by (rule list_all2_mono) (auto simp: edge_bound_def split: option.splits)
    with c x have "feasible_flow ?r fl (NStr ''S'') (NStr ''T'') \<and> flow_amount ?r fl (NStr ''S'') = v"
      by (simp add: feasible_flow_def)
    then show ?thesis by (rule exI)
  qed
qed

lemma inflow_nonneg_feasible:
  "list_all2 (\<lambda>x e. 0 \<le> x \<and> Q x e) fl g \<Longrightarrow> 0 \<le> inflow g fl u"
  unfolding inflow_def
  by (induction fl g rule: list_all2_induct) (auto split: prod.splits)

lemma outflow_le_capacities:
  assumes "list_all2 (\<lambda>x e. 0 \<le> x \<and> (case snd (snd e) of None \<Rightarrow> True | Some k \<Rightarrow> x \<le> k)) fl g"
    and "\<forall>e \<in> set g. fst e = s \<longrightarrow> snd (snd e) \<noteq> None"
  shows "outflow g fl s
           \<le> sum_list (map (\<lambda>e. if fst e = s then (case snd (snd e) of None \<Rightarrow> 0 | Some k \<Rightarrow> k)
                                  else 0) g)"
  using assms
proof (induction fl g rule: list_all2_induct)
  case Nil
  then show ?case by (simp add: outflow_def)
next
  case (Cons x fl e g)
  have "(if fst e = s then x else 0)
          \<le> (if fst e = s then (case snd (snd e) of None \<Rightarrow> 0 | Some k \<Rightarrow> k) else 0)"
    using Cons.hyps(1) Cons.prems by (cases "snd (snd e)") auto
  moreover have "outflow g fl s
           \<le> sum_list (map (\<lambda>e. if fst e = s then (case snd (snd e) of None \<Rightarrow> 0 | Some k \<Rightarrow> k)
                                  else 0) g)"
    using Cons.prems by (intro Cons.IH) simp
  ultimately show ?case by (simp add: outflow_Cons)
qed

lemma source_capacity_other:
  "\<forall>e \<in> set g. fst e \<noteq> s
     \<Longrightarrow> sum_list (map (\<lambda>e. if fst e = s then (case snd (snd e) of None \<Rightarrow> 0 | Some k \<Rightarrow> k)
                                else (0::int)) g) = 0"
  by (induction g) auto

lemma source_capacity_first_layer:
  "sum_list (map (\<lambda>e. if fst e = NStr ''S'' then (case snd (snd e) of None \<Rightarrow> 0 | Some k \<Rightarrow> k)
                       else 0)
       (map (\<lambda>(p, n). (NStr ''S'', NTup p, Some n)) se)) = sum_list (map snd se)"
  by (induction se) auto

lemma source_capacity_spec_network:
  "sum_list (map (\<lambda>e. if fst e = NStr ''S'' then (case snd (snd e) of None \<Rightarrow> 0 | Some k \<Rightarrow> k)
                       else 0) (spec_network d c))
     = sum_list (map snd (spec_saturated d c))"
proof -
  have two: "sum_list (map (\<lambda>e. if fst e = NStr ''S'' then (case snd (snd e) of None \<Rightarrow> 0 | Some k \<Rightarrow> k)
                       else 0)
      (concat (map (\<lambda>(p, n). [(NTup p, NInt (fst p), None :: int option),
                               (NTup p, NInt (snd p), None)])
                 (spec_saturated d c)))) = 0"
    by (rule source_capacity_other) auto
  have three: "sum_list (map (\<lambda>e. if fst e = NStr ''S'' then (case snd (snd e) of None \<Rightarrow> 0 | Some k \<Rightarrow> k)
                       else 0)
      (map (\<lambda>i. (NInt i, NStr ''T'', Some (sink_capacity d c i))) (other_teams d c))) = 0"
    by (rule source_capacity_other) auto
  from source_capacity_first_layer [of "spec_saturated d c"] two three show ?thesis
    by (simp add: spec_network_def)
qed

lemma spec_network_source_capacitated:
  "\<forall>e \<in> set (spec_network d c). fst e = NStr ''S'' \<longrightarrow> snd (snd e) \<noteq> None"
proof (intro ballI impI)
  fix e assume m: "e \<in> set (spec_network d c)" and s: "fst e = NStr ''S''"
  obtain u v k where e: "e = (u, v, k)" by (cases e)
  show "snd (snd e) \<noteq> None"
  proof
    assume "snd (snd e) = None"
    with m e have "(u, v, None) \<in> set (spec_network d c)" by simp
    from spec_network_uncapacitated_edge [OF this] s e show False by simp
  qed
qed

lemma feasible_flow_le_total:
  assumes "feasible_flow (spec_network d c) fl (NStr ''S'') (NStr ''T'')"
  shows "flow_amount (spec_network d c) fl (NStr ''S'') \<le> sum_list (map snd (spec_saturated d c))"
proof -
  from assms
  have caps: "list_all2 (\<lambda>x e. 0 \<le> x \<and> (case snd (snd e) of None \<Rightarrow> True | Some k \<Rightarrow> x \<le> k))
                fl (spec_network d c)"
    by (simp add: feasible_flow_def)
  from outflow_le_capacities [OF caps spec_network_source_capacitated]
  have "outflow (spec_network d c) fl (NStr ''S'') \<le> sum_list (map snd (spec_saturated d c))"
    by (simp only: source_capacity_spec_network)
  with inflow_nonneg_feasible [OF caps, of "NStr ''S''"] show ?thesis
    by (simp add: flow_amount_def)
qed

lemma open_division_facts:
  "distinct (get_team_IDs open_division)" "against_nonneg open_division"
  "create_network open_division 0 = (Inr [((1, 2), 1)], open_division\<lparr>G := open_network\<rparr>)"
  by (simp_all add: open_division_def get_team_IDs_def against_nonneg_def mk_team_def
      create_network_def AList.delete_eq get_against_def second_layer_def max_allowed_def
      open_network_def)


lemma open_max_flow: "nx_maximum_flow open_network (NStr ''S'') (NStr ''T'') = Inr 1"
  by code_simp


lemma tie_network:
  "create_network tie_division 0 =
     (Inr [], tie_division\<lparr>G := [(NInt 1, NStr ''T'', Some (- 1))]\<rparr>)"
  "create_network tie_division 1 =
     (Inr [], tie_division\<lparr>G := [(NInt 0, NStr ''T'', Some (- 1))]\<rparr>)"
  by (simp_all add: tie_division_def mk_team_def create_network_def AList.delete_eq
      second_layer_def max_allowed_def)

lemma tie_division_dict:
  "map_of (teams tie_division) 0 = Some (mk_team 0 ''A'' 5 0 0 [0, 0])"
  "map_of (teams tie_division) 1 = Some (mk_team 1 ''B'' 5 0 0 [0, 0])"
  "\<not> trivially_behind tie_division 0" "\<not> trivially_behind tie_division 1"
  by (simp_all add: tie_division_def trivially_behind_def mk_team_def)

lemma tie_linear_programming:
  "fst (is_eliminated mf lp tie_division 0 ''Linear Programming'') = Inr True"
  "fst (is_eliminated mf lp tie_division 1 ''Linear Programming'') = Inr True"
  by (simp_all add: is_eliminated_unfold [OF tie_division_dict(1)]
      is_eliminated_unfold [OF tie_division_dict(2)] tie_network tie_division_dict(3,4)
      linear_programming_def)

lemma tie_network_flows:
  "fst (is_eliminated nx_maximum_flow lp tie_division 0 ''Network Flows'')
     = Inl (LibError NetworkXError)"
  "fst (is_eliminated nx_maximum_flow lp tie_division 1 ''Network Flows'')
     = Inl (LibError NetworkXError)"
  by (simp_all add: is_eliminated_unfold [OF tie_division_dict(1)]
      is_eliminated_unfold [OF tie_division_dict(2)] tie_network tie_division_dict(3,4)
      network_flows_def nx_maximum_flow_def graph_nodes_def)

lemma level_division_dict:
  "map_of (teams level_division) 0 = Some (mk_team 0 ''A'' 5 0 0 [0, 0, 0])"
  by (simp add: level_division_def)

lemma level_max_flow:
  "nx_maximum_flow
     [(NStr ''S'', NTup (1, 2), Some 1), (NTup (1, 2), NInt 1, None),
      (NTup (1, 2), NInt 2, None), (NInt 1, NStr ''T'', Some (- 1)),
      (NInt 2, NStr ''T'', Some 1)] (NStr ''S'') (NStr ''T'') = Inr 1"
  by code_simp

lemma level_network_flows:
  "fst (is_eliminated nx_maximum_flow lp level_division 0 ''Network Flows'') = Inr False"
  by (simp add: is_eliminated_unfold [OF level_division_dict] level_network
      level_division_facts(3) network_flows_def level_max_flow)

lemma level_linear_programming:
  "fst (is_eliminated mf lp level_division 0 ''Linear Programming'') = Inr True"
  by (simp add: is_eliminated_unfold [OF level_division_dict] level_network
      level_division_facts(3) linear_programming_def)

section \<open>The opponent lookup\<close>

text \<open>
  What \<open>get_against\<close> returns, for every argument: the count at an accepted index,
  ValueError otherwise. For an ID that is not negative this is the count of a listed
  opponent (a zero count included) and ValueError for an opponent that is not listed.
\<close>

lemma get_against_by_index:
  "(index_accepted t other_team \<longrightarrow>
      (\<exists>i. other_team = Some i \<and>
           get_against t other_team =
             Inr (against t ! nat (if i < 0 then int (length (against t)) + i else i))))
   \<and> (get_against t other_team = Inl ValueError \<longleftrightarrow> \<not> index_accepted t other_team)
   \<and> (\<forall>e. get_against t other_team = Inl e \<longrightarrow> e = ValueError)"
  by (cases other_team) (auto simp: get_against_def index_accepted_def Let_def)

lemma get_against_listed:
  "0 \<le> i \<Longrightarrow>
     get_against t (Some i) =
       (if opponent_listed t i then Inr (against t ! nat i) else Inl ValueError)"
  by (simp add: get_against_def opponent_listed_def Let_def)

lemma get_against_negative:
  "i < 0 \<Longrightarrow> - int (length (against t)) \<le> i \<Longrightarrow>
     \<not> opponent_listed t i
     \<and> get_against t (Some i) = Inr (against t ! nat (int (length (against t)) + i))"
  by (simp add: get_against_def opponent_listed_def Let_def)

lemma get_against_examples:
  "opponent_listed team_zero_entry 2 \<and> get_against team_zero_entry (Some 2) = Inr 0"
  "opponent_listed team_zero_entry 1 \<and> get_against team_zero_entry (Some 1) = Inr 3"
  "\<not> opponent_listed team_zero_entry 3 \<and> get_against team_zero_entry (Some 3) = Inl ValueError"
  "get_against team_zero_entry None = Inl ValueError"
  by (simp_all add: get_against_def opponent_listed_def team_zero_entry_def)

text \<open>
  C8 fails on the code. The lookup is to fail with the not-found error exactly when the
  opponent entry is absent. The team with the opponent list \<open>[0, 3, 0]\<close> has entries for
  the IDs 0, 1 and 2 only; asked for the opponents \<open>-2\<close> and \<open>-1\<close>, \<open>get_against\<close> raises
  nothing and returns the counts 3 and 0, which Python reads from the end of the list.
\<close>

theorem get_against_negative_id_returns_count:
  "\<not> opponent_listed team_zero_entry (- 2)
   \<and> get_against team_zero_entry (Some (- 2)) = Inr 3
   \<and> \<not> opponent_listed team_zero_entry (- 1)
   \<and> get_against team_zero_entry (Some (- 1)) = Inr 0"
  by (simp add: get_against_def opponent_listed_def team_zero_entry_def)

section \<open>Unknown candidates\<close>

text \<open>
  C9. For a candidate ID that is not a key of the team registry, \<open>is_eliminated\<close> fails
  with the not-found error of the dictionary lookup (KeyError) and returns no verdict; for
  a candidate ID that is a key, it never raises that error, whatever the solvers do. With
  complete opponent lists it does not raise the not-found error of the opponent lookup
  (ValueError) either.
\<close>

theorem is_eliminated_unknown_team:
  "(teamID \<notin> set (get_team_IDs d) \<longrightarrow>
      fst (is_eliminated mf lp d teamID solver) = Inl (KeyError teamID))
   \<and> (teamID \<in> set (get_team_IDs d) \<longrightarrow>
      (\<forall>k. fst (is_eliminated mf lp d teamID solver) \<noteq> Inl (KeyError k)))
   \<and> (teamID \<in> set (get_team_IDs d) \<and> against_complete d \<longrightarrow>
      fst (is_eliminated mf lp d teamID solver) \<noteq> Inl ValueError)"
proof (intro conjI impI allI)
  assume "teamID \<notin> set (get_team_IDs d)"
  then have "map_of (teams d) teamID = None"
    by (simp add: get_team_IDs_def map_of_eq_None_iff)
  then show "fst (is_eliminated mf lp d teamID solver) = Inl (KeyError teamID)"
    by (simp add: is_eliminated_def)
next
  fix k
  assume key: "teamID \<in> set (get_team_IDs d)"
  then obtain team where team: "map_of (teams d) teamID = Some team"
    using keys_map_of [of teamID "teams d"] by (auto simp: get_team_IDs_def)
  obtain r d' where c: "create_network d teamID = (r, d')"
    by (cases "create_network d teamID") auto
  show "fst (is_eliminated mf lp d teamID solver) \<noteq> Inl (KeyError k)"
  proof (cases r)
    case (Inl e)
    with c key have "e = ValueError"
      using create_network_error [of teamID d e] by (simp add: get_team_IDs_def)
    with c Inl show ?thesis by (simp add: is_eliminated_unfold [OF team])
  next
    case (Inr se)
    with c show ?thesis
      by (simp add: is_eliminated_unfold [OF team] solver_results_not_key_error)
  qed
next
  assume "teamID \<in> set (get_team_IDs d) \<and> against_complete d"
  then have key: "teamID \<in> set (get_team_IDs d)" and ac: "against_complete d" by simp_all
  from key obtain team where team: "map_of (teams d) teamID = Some team"
    using keys_map_of [of teamID "teams d"] by (auto simp: get_team_IDs_def)
  from key ac obtain se where "fst (create_network d teamID) = Inr se"
    using create_network_ok [of teamID d] by (auto simp: get_team_IDs_def)
  then obtain d' where "create_network d teamID = (Inr se, d')"
    by (cases "create_network d teamID") auto
  then show "fst (is_eliminated mf lp d teamID solver) \<noteq> Inl ValueError"
    by (simp add: is_eliminated_unfold [OF team] solver_results_not_value_error)
qed

theorem is_eliminated_unknown_team_witness:
  "7 \<notin> set (get_team_IDs tie_division)
   \<and> fst (is_eliminated nx_maximum_flow lp_exact tie_division 7 ''Network Flows'')
       = Inl (KeyError 7)
   \<and> 0 \<in> set (get_team_IDs tie_division) \<and> against_complete tie_division
   \<and> fst (is_eliminated nx_maximum_flow lp_exact tie_division 0 ''Network Flows'')
       \<noteq> Inl (KeyError 0)
   \<and> fst (is_eliminated nx_maximum_flow lp_exact tie_division 0 ''Network Flows'')
       \<noteq> Inl ValueError"
proof -
  have a: "7 \<notin> set (get_team_IDs tie_division)"
    by (simp add: get_team_IDs_def tie_division_def)
  have p: "0 \<in> set (get_team_IDs tie_division)"
    by (simp add: get_team_IDs_def tie_division_def)
  have c: "against_complete tie_division"
    by (simp add: against_complete_def tie_division_def index_accepted_def mk_team_def)
  note absent =
    is_eliminated_unknown_team [of 7 tie_division nx_maximum_flow lp_exact "''Network Flows''"]
  note present =
    is_eliminated_unknown_team [of 0 tie_division nx_maximum_flow lp_exact "''Network Flows''"]
  from absent a
  have r1: "fst (is_eliminated nx_maximum_flow lp_exact tie_division 7 ''Network Flows'')
              = Inl (KeyError 7)" by simp
  from present p
  have r2: "fst (is_eliminated nx_maximum_flow lp_exact tie_division 0 ''Network Flows'')
              \<noteq> Inl (KeyError 0)" by simp
  from present p c
  have r3: "fst (is_eliminated nx_maximum_flow lp_exact tie_division 0 ''Network Flows'')
              \<noteq> Inl ValueError" by simp
  show ?thesis by (intro conjI a p c r1 r2 r3)
qed

section \<open>Solver names\<close>

text \<open>
  C10. For a team of the registry whose pre-check does not fire, a solver string other
  than \<^verbatim>\<open>"Network Flows"\<close> and \<^verbatim>\<open>"Linear Programming"\<close> (for example
  \<^verbatim>\<open>"network-flow"\<close>) makes \<open>is_eliminated\<close> return False without an error; the result
  is the same for every pair of solvers, so none is called. The opponent lists are complete,
  so that building the network succeeds.
\<close>

theorem unknown_solver_returns_false:
  assumes "teamID \<in> set (get_team_IDs d)" and "against_complete d"
    and "\<not> trivially_behind d teamID"
    and "solver \<noteq> ''Network Flows''" and "solver \<noteq> ''Linear Programming''"
  shows "fst (is_eliminated mf lp d teamID solver) = Inr False"
proof -
  from assms(1) obtain team where team: "map_of (teams d) teamID = Some team"
    using keys_map_of [of teamID "teams d"] by (auto simp: get_team_IDs_def)
  from assms(1,2) obtain se where "fst (create_network d teamID) = Inr se"
    using create_network_ok [of teamID d] by (auto simp: get_team_IDs_def)
  then obtain d' where "create_network d teamID = (Inr se, d')"
    by (cases "create_network d teamID") auto
  with assms(3-5) show ?thesis by (simp add: is_eliminated_unfold [OF team])
qed

theorem unknown_solver_returns_false_witness:
  "0 \<in> set (get_team_IDs level_division) \<and> against_complete level_division
   \<and> \<not> trivially_behind level_division 0
   \<and> ''network-flow'' \<noteq> ''Network Flows'' \<and> ''network-flow'' \<noteq> ''Linear Programming''
   \<and> fst (is_eliminated nx_maximum_flow lp_exact level_division 0 ''network-flow'') = Inr False"
proof -
  have s: "''network-flow'' \<noteq> ''Network Flows''" "''network-flow'' \<noteq> ''Linear Programming''"
    by simp_all
  from unknown_solver_returns_false [OF level_division_facts s, of nx_maximum_flow lp_exact]
    level_division_facts s
  show ?thesis by simp
qed

section \<open>The pre-check\<close>

text \<open>
  C4, as the code has it. When another team's wins exceed the candidate's wins plus
  remaining games, \<open>is_eliminated\<close> returns True for every solver string and every pair
  of solvers (none is called), but only after \<open>create_network\<close> has built the network
  and stored it in the division. The opponent lists are complete, so that building the
  network succeeds.
\<close>

theorem trivial_check_returns_true_after_network:
  assumes "teamID \<in> set (get_team_IDs d)" and "against_complete d"
    and "trivially_behind d teamID"
  shows "\<exists>se. create_network d teamID = (Inr se, snd (create_network d teamID))
           \<and> is_eliminated mf lp d teamID solver = (Inr True, snd (create_network d teamID))"
proof -
  from assms(1) obtain team where team: "map_of (teams d) teamID = Some team"
    using keys_map_of [of teamID "teams d"] by (auto simp: get_team_IDs_def)
  from assms(1,2) obtain se where "fst (create_network d teamID) = Inr se"
    using create_network_ok [of teamID d] by (auto simp: get_team_IDs_def)
  then obtain d' where "create_network d teamID = (Inr se, d')"
    by (cases "create_network d teamID") auto
  with assms(3) show ?thesis by (simp add: is_eliminated_unfold [OF team])
qed

theorem trivial_check_returns_true_after_network_witness:
  "2 \<in> set (get_team_IDs behind_division) \<and> against_complete behind_division
   \<and> trivially_behind behind_division 2
   \<and> (\<exists>se. create_network behind_division 2 = (Inr se, snd (create_network behind_division 2))
        \<and> is_eliminated nx_maximum_flow lp_exact behind_division 2 ''Network Flows''
            = (Inr True, snd (create_network behind_division 2)))"
  using trivial_check_returns_true_after_network [OF behind_division_facts,
      of nx_maximum_flow lp_exact "''Network Flows''"] behind_division_facts
  by simp

theorem trivial_check_builds_network_counterexample:
  "trivially_behind behind_division 2
   \<and> G behind_division = []
   \<and> is_eliminated nx_maximum_flow lp_exact behind_division 2 ''Network Flows''
       = (Inr True,
          behind_division
            \<lparr>G := [(NStr ''S'', NTup (0, 1), Some 0), (NTup (0, 1), NInt 0, None),
                   (NTup (0, 1), NInt 1, None), (NInt 0, NStr ''T'', Some (- 4)),
                   (NInt 1, NStr ''T'', Some (- 5))]\<rparr>)"
  by (simp add: behind_division_def trivially_behind_def mk_team_def is_eliminated_def
      create_network_def AList.delete_eq get_against_def second_layer_def max_allowed_def)

section \<open>The network builder\<close>



section \<open>Negative sink capacities\<close>

text \<open>
  C3 fails on the code. A candidate whose network holds a team-to-sink edge of negative
  capacity is to be declared eliminated by the decider itself, before either solver is
  called. In the division A (5 wins, finished), B (5 wins), C (3 wins) with one game left
  between B and C, the network built for A holds the edge from B to the sink with capacity
  \<open>-1\<close>; the pre-check of \<open>is_eliminated\<close> tests \<open>5 + 0 < 5\<close> only, so with
  \<^verbatim>\<open>"Network Flows"\<close> the verdict is whatever \<open>network_flows\<close> makes of the max-flow
  call, and with the max flow of the network it is False.
\<close>

theorem negative_sink_capacity_reaches_max_flow_solver:
  "create_network level_division 0 =
     (Inr [((1, 2), 1)],
      level_division
        \<lparr>G := [(NStr ''S'', NTup (1, 2), Some 1), (NTup (1, 2), NInt 1, None),
               (NTup (1, 2), NInt 2, None), (NInt 1, NStr ''T'', Some (- 1)),
               (NInt 2, NStr ''T'', Some 1)]\<rparr>)
   \<and> fst (is_eliminated mf lp level_division 0 ''Network Flows'') =
       network_flows mf
         (level_division
            \<lparr>G := [(NStr ''S'', NTup (1, 2), Some 1), (NTup (1, 2), NInt 1, None),
                   (NTup (1, 2), NInt 2, None), (NInt 1, NStr ''T'', Some (- 1)),
                   (NInt 2, NStr ''T'', Some 1)]\<rparr>)
         [((1, 2), 1)]
   \<and> fst (is_eliminated nx_maximum_flow lp level_division 0 ''Network Flows'') = Inr False"
proof -
  have "fst (is_eliminated mf lp level_division 0 ''Network Flows'') =
       network_flows mf
         (level_division
            \<lparr>G := [(NStr ''S'', NTup (1, 2), Some 1), (NTup (1, 2), NInt 1, None),
                   (NTup (1, 2), NInt 2, None), (NInt 1, NStr ''T'', Some (- 1)),
                   (NInt 2, NStr ''T'', Some 1)]\<rparr>)
         [((1, 2), 1)]"
    by (simp add: is_eliminated_unfold [OF level_division_dict] level_network
        level_division_facts(3))
  with level_network level_network_flows show ?thesis by (intro conjI)
qed

text \<open>
  Where the code does return True at a negative sink capacity: with
  \<^verbatim>\<open>"Linear Programming"\<close>, by the pre-check or by the first loop of
  \<open>linear_programming\<close>, whatever the solvers are; and for every solver string when the
  capacity is below \<open>-1\<close> (the other team's wins exceed the candidate's wins plus remaining
  games), by the pre-check, with no solver called.
\<close>

lemma negative_sink_capacity_linear_programming:
  assumes "distinct (get_team_IDs d)" and "create_network d c = (Inr se, d')"
    and "(NInt i, NStr ''T'', Some k) \<in> set (G d')" and "k < 0"
  shows "fst (is_eliminated mf lp d c ''Linear Programming'') = Inr True
         \<and> (k < - 1 \<longrightarrow> fst (is_eliminated mf lp d c solver) = Inr True)"
proof -
  from assms(2) obtain tc where tc: "map_of (teams d) c = Some tc"
    by (cases "map_of (teams d) c") (auto simp: create_network_def)
  from create_network_closed [OF assms(1,2)] have d': "G d' = spec_network d c" by simp
  have lp: "linear_programming lp d' se = Inr True"
    using edge_capacities_negative [OF assms(3,4)] by (simp add: linear_programming_def)
  have first: "fst (is_eliminated mf lp d c ''Linear Programming'') = Inr True"
    using assms(2) lp by (simp add: is_eliminated_unfold [OF tc])
  have second: "fst (is_eliminated mf lp d c solver) = Inr True" if "k < - 1"
  proof -
    from assms(3) sink_edge_in_spec_network [of i k d c]
    have i: "i \<in> set (other_teams d c)" and k: "k = sink_capacity d c i" by (simp_all add: d')
    from i have "i \<in> set (get_team_IDs d)" "i \<noteq> c" by (simp_all add: other_teams_set)
    then obtain ti where ti: "map_of (teams d) i = Some ti"
      using keys_map_of [of i "teams d"] by (auto simp: get_team_IDs_def)
    from k tc ti that have "wins tc + remaining tc < wins ti"
      by (simp add: sink_capacity_def)
    moreover from ti have "(i, ti) \<in> set (teams d)" by (rule map_of_SomeD)
    ultimately have "trivially_behind d c"
      using tc \<open>i \<noteq> c\<close> by (auto simp: trivially_behind_def list_ex_iff)
    with assms(2) show ?thesis by (simp add: is_eliminated_unfold [OF tc])
  qed
  from first second show ?thesis by blast
qed

lemma negative_sink_capacity_linear_programming_example:
  "distinct (get_team_IDs behind_division)
   \<and> create_network behind_division 2 =
       (Inr [((0, 1), 0)],
        behind_division
          \<lparr>G := [(NStr ''S'', NTup (0, 1), Some 0), (NTup (0, 1), NInt 0, None),
                 (NTup (0, 1), NInt 1, None), (NInt 0, NStr ''T'', Some (- 4)),
                 (NInt 1, NStr ''T'', Some (- 5))]\<rparr>)
   \<and> (- 4 :: int) < - 1
   \<and> fst (is_eliminated nx_maximum_flow lp_exact behind_division 2 ''Linear Programming'')
       = Inr True
   \<and> fst (is_eliminated nx_maximum_flow lp_exact behind_division 2 ''Network Flows'') = Inr True"
proof -
  have e: "(NInt 0, NStr ''T'', Some (- 4))
             \<in> set (G (behind_division
                  \<lparr>G := [(NStr ''S'', NTup (0, 1), Some 0), (NTup (0, 1), NInt 0, None),
                         (NTup (0, 1), NInt 1, None), (NInt 0, NStr ''T'', Some (- 4)),
                         (NInt 1, NStr ''T'', Some (- 5))]\<rparr>))"
    by simp
  have k: "(- 4 :: int) < 0" and k': "(- 4 :: int) < - 1" by simp_all
  note inst = negative_sink_capacity_linear_programming [OF behind_division_dict(1) behind_network e k,
      of nx_maximum_flow lp_exact "''Network Flows''"]
  from inst have r1:
    "fst (is_eliminated nx_maximum_flow lp_exact behind_division 2 ''Linear Programming'') = Inr True"
    by (rule conjunct1)
  from inst [THEN conjunct2, rule_format, OF k'] have r2:
    "fst (is_eliminated nx_maximum_flow lp_exact behind_division 2 ''Network Flows'') = Inr True" .
  show ?thesis
    by (intro conjI behind_division_dict(1) behind_network k' r1 r2)
qed

section \<open>The max-flow solver\<close>

text \<open>
  C6. For every network the builder returns (registry keys distinct, no negative game
  count), no flow from \<open>S\<close> to \<open>T\<close> carries more than the sum of the saturated-edges
  values, and so the maximum flow that the max-flow call computes never exceeds that sum.
  The call does return a value, between zero and the sum, whenever the map has an entry
  (at least two other teams); with fewer teams the graph has no node \<open>S\<close> and the call
  raises NetworkXError.
\<close>

theorem max_flow_at_most_total_remaining:
  assumes "distinct (get_team_IDs d)" and "against_nonneg d"
    and "create_network d c = (Inr se, d')"
  shows "(\<forall>fl. feasible_flow (G d') fl (NStr ''S'') (NStr ''T'')
            \<longrightarrow> flow_amount (G d') fl (NStr ''S'') \<le> sum_list (map snd se))
       \<and> (\<forall>v. nx_maximum_flow (G d') (NStr ''S'') (NStr ''T'') = Inr v
            \<longrightarrow> v \<le> sum_list (map snd se))
       \<and> (se \<noteq> [] \<longrightarrow>
            (\<exists>v. nx_maximum_flow (G d') (NStr ''S'') (NStr ''T'') = Inr v
               \<and> 0 \<le> v \<and> v \<le> sum_list (map snd se)))
       \<and> (se = [] \<longrightarrow>
            nx_maximum_flow (G d') (NStr ''S'') (NStr ''T'') = Inl NetworkXError)"
proof -
  from create_network_closed [OF assms(1,3)]
  have se: "se = spec_saturated d c" and g: "G d' = spec_network d c" by simp_all
  from max_flow_spec_network [OF assms(2), of c]
  have a: "se \<noteq> [] \<longrightarrow>
            (\<exists>v. nx_maximum_flow (G d') (NStr ''S'') (NStr ''T'') = Inr v
               \<and> 0 \<le> v \<and> v \<le> sum_list (map snd se))"
    and b: "se = [] \<longrightarrow>
            nx_maximum_flow (G d') (NStr ''S'') (NStr ''T'') = Inl NetworkXError"
    by (simp_all add: se g)
  have m: "\<forall>v. nx_maximum_flow (G d') (NStr ''S'') (NStr ''T'') = Inr v
            \<longrightarrow> v \<le> sum_list (map snd se)"
  proof (cases "se = []")
    case True
    with b show ?thesis by simp
  next
    case False
    with a show ?thesis by auto
  qed
  have f: "\<forall>fl. feasible_flow (G d') fl (NStr ''S'') (NStr ''T'')
            \<longrightarrow> flow_amount (G d') fl (NStr ''S'') \<le> sum_list (map snd se)"
    unfolding se g by (intro allI impI feasible_flow_le_total)
  from f m a b show ?thesis by (intro conjI)
qed

theorem max_flow_at_most_total_remaining_witness:
  "distinct (get_team_IDs open_division) \<and> against_nonneg open_division
   \<and> create_network open_division 0 = (Inr [((1, 2), 1)], open_division\<lparr>G := open_network\<rparr>)
   \<and> feasible_flow open_network [1, 1, 0, 1, 0] (NStr ''S'') (NStr ''T'')
   \<and> flow_amount open_network [1, 1, 0, 1, 0] (NStr ''S'') = 1
   \<and> nx_maximum_flow open_network (NStr ''S'') (NStr ''T'') = Inr 1
   \<and> (1::int) \<le> sum_list (map snd [((1::int, 2::int), 1::int)])"
proof -
  note inst = max_flow_at_most_total_remaining [OF open_division_facts]
  have g: "G (open_division\<lparr>G := open_network\<rparr>) = open_network" by simp
  have fe: "feasible_flow open_network [1, 1, 0, 1, 0] (NStr ''S'') (NStr ''T'')"
    by (simp add: feasible_flow_def conserved_def graph_nodes_def inflow_def outflow_def
        open_network_def)
  have fa: "flow_amount open_network [1, 1, 0, 1, 0] (NStr ''S'') = 1"
    by (simp add: flow_amount_def inflow_def outflow_def open_network_def)
  from inst [THEN conjunct1, rule_format, of "[1, 1, 0, 1, 0]"] fe
  have "flow_amount open_network [1, 1, 0, 1, 0] (NStr ''S'')
          \<le> sum_list (map snd [((1::int, 2::int), 1::int)])"
    by (simp only: g)
  then have le: "(1::int) \<le> sum_list (map snd [((1::int, 2::int), 1::int)])"
    by (simp only: fa)
  from inst [THEN conjunct2, THEN conjunct1, rule_format, of 1] open_max_flow
  have "(1::int) \<le> sum_list (map snd [((1::int, 2::int), 1::int)])"
    by (simp only: g)
  with open_division_facts open_max_flow fe fa show ?thesis by (intro conjI)
qed



section \<open>The tie of two teams\<close>

text \<open>
  C7, as the code has it. In the division of the two teams A and B, five wins each and no
  game left, \<open>is_eliminated\<close> with \<^verbatim>\<open>"Linear Programming"\<close> returns True for both
  teams, whatever the solvers are: the sink capacity is \<open>5 + 0 - 5 - 1 = -1\<close>, and a team
  that can at best draw level does not win the division.
\<close>

theorem tie_division_eliminated_by_linear_programming:
  "fst (is_eliminated mf lp tie_division 0 ''Linear Programming'') = Inr True
   \<and> fst (is_eliminated mf lp tie_division 1 ''Linear Programming'') = Inr True"
  by (intro conjI tie_linear_programming)

theorem tie_division_counterexample:
  "fst (is_eliminated nx_maximum_flow lp_exact tie_division 0 ''Linear Programming'') = Inr True
   \<and> fst (is_eliminated nx_maximum_flow lp_exact tie_division 1 ''Linear Programming'') = Inr True
   \<and> fst (is_eliminated nx_maximum_flow lp_exact tie_division 0 ''Network Flows'')
       = Inl (LibError NetworkXError)
   \<and> fst (is_eliminated nx_maximum_flow lp_exact tie_division 1 ''Network Flows'')
       = Inl (LibError NetworkXError)"
  by (intro conjI tie_linear_programming tie_network_flows)

section \<open>The two solvers on one input\<close>

text \<open>
  C1 fails on the code. In the division A (5 wins, finished), B (5 wins), C (3 wins) with
  one game left between B and C, the candidate A gets the sink capacity \<open>-1\<close> for B.
  \<open>linear_programming\<close> returns True at that capacity; \<open>network_flows\<close> has no such
  test, the max-flow call leaves the edge out, finds the flow 1 through C, equal to the
  one remaining game, and the verdict is False.
\<close>

theorem solvers_disagree_on_level_division:
  "fst (is_eliminated nx_maximum_flow lp level_division 0 ''Network Flows'') = Inr False
   \<and> fst (is_eliminated mf lp level_division 0 ''Linear Programming'') = Inr True"
  by (intro conjI level_network_flows level_linear_programming)

end
